theory Spec2Isabelle
  imports Main
begin

text \<open>
  The value-capture engine of the Data Snapshot extension (\<open>snapshotCapture.ts\<close>): the
  primitive value decoder, the progress counter, the bounded concurrency gate, the graph
  walker, the fast-path serializer and the capture orchestrator, followed by the
  properties the specification states of them.
\<close>

section \<open>JavaScript strings\<close>

text \<open>
  A JavaScript string is a sequence of code units; it is modelled as a \<^typ>\<open>string\<close>,
  one \<^typ>\<open>char\<close> per code unit. The regular expressions of the source carry no
  \<open>u\<close> and no \<open>m\<close> flag: \<open>\d\<close> is \<open>[0-9]\<close>, \<open>^\<close> and \<open>$\<close> are the two ends of
  the text.
\<close>

definition isDigit :: "char \<Rightarrow> bool" where
  "isDigit c = (c \<in> set ''0123456789'')"

definition startsWith :: "string \<Rightarrow> string \<Rightarrow> bool" where
  "startsWith s p = (take (length p) s = p)"

definition endsWith :: "string \<Rightarrow> string \<Rightarrow> bool" where
  "endsWith s p = (length p \<le> length s \<and> drop (length s - length p) s = p)"

fun includesText :: "string \<Rightarrow> string \<Rightarrow> bool" where
  "includesText [] p = (p = [])"
| "includesText (c # cs) p = (startsWith (c # cs) p \<or> includesText cs p)"

definition slice :: "string \<Rightarrow> int \<Rightarrow> int \<Rightarrow> string" where
  \<comment> \<open>\<open>s.slice(b, e)\<close>: a negative index counts from the end, both are clamped.\<close>
  "slice s b e =
     (let n = int (length s);
          lo = (if b < 0 then max (n + b) 0 else min b n);
          hi = (if e < 0 then max (n + e) 0 else min e n)
      in take (nat (hi - lo)) (drop (nat lo) s))"

definition isWhiteSpace :: "char \<Rightarrow> bool" where
  \<comment> \<open>tab, line feed, vertical tab, form feed, carriage return, space, no-break space\<close>
  "isWhiteSpace c = (c \<in> {CHR 0x09, CHR 0x0A, CHR 0x0B, CHR 0x0C, CHR 0x0D, CHR 0x20, CHR 0xA0})"

definition trim :: "string \<Rightarrow> string" where
  "trim s = rev (dropWhile isWhiteSpace (rev (dropWhile isWhiteSpace s)))"

definition numericPattern :: "string \<Rightarrow> bool" where
  \<comment> \<open>\<open>/^-?\d+(\.\d+)?$/.test(raw)\<close>\<close>
  "numericPattern raw =
     (let body = (case raw of c # cs \<Rightarrow> if c = CHR ''-'' then cs else raw | [] \<Rightarrow> raw);
          whole = takeWhile isDigit body;
          rest = dropWhile isDigit body
      in whole \<noteq> [] \<and>
         (case rest of
            [] \<Rightarrow> True
          | d # frac \<Rightarrow> d = CHR ''.'' \<and> frac \<noteq> [] \<and> list_all isDigit frac))"

definition digitsPattern :: "string \<Rightarrow> bool" where
  \<comment> \<open>\<open>/^\d+$/.test(name)\<close>\<close>
  "digitsPattern s = (s \<noteq> [] \<and> list_all isDigit s)"


section \<open>Materialized values and the primitive value decoder\<close>

text \<open>
  The JSON-safe values the engine produces. \<open>'n\<close> is the carrier of the numbers other
  than not-a-number. An object is the list of its entries in creation order, one entry
  per key; the order in which JavaScript enumerates the keys is not modelled.
\<close>

datatype 'n jsval =
    Undefined
  | Null
  | Bool bool
  | Num 'n
  | Str string
  | Arr "'n jsval list"
  | Obj "(string \<times> 'n jsval) list"

fun setEntry :: "string \<Rightarrow> 'v \<Rightarrow> (string \<times> 'v) list \<Rightarrow> (string \<times> 'v) list" where
  "setEntry k v [] = [(k, v)]"
| "setEntry k v ((k', v') # es) = (if k = k' then (k, v) # es else (k', v') # setEntry k v es)"

definition fromEntries :: "(string \<times> 'v) list \<Rightarrow> (string \<times> 'v) list" where
  \<comment> \<open>\<open>Object.fromEntries\<close>: the entries are stored one after another, a later entry
      replacing the value of an earlier one with the same key.\<close>
  "fromEntries es = foldl (\<lambda>obj (k, v). setEntry k v obj) [] es"

definition parsePrimitiveValue :: "(string \<Rightarrow> 'n option) \<Rightarrow> string \<Rightarrow> string option \<Rightarrow> 'n jsval" where
  \<comment> \<open>\<open>toNumber raw\<close> is \<open>Number(raw)\<close>, with \<open>None\<close> for not-a-number.\<close>
  "parsePrimitiveValue toNumber raw ty =
     (if raw = ''undefined'' then Undefined
      else if raw = ''null'' then Null
      else if raw = ''true'' then Bool True
      else if raw = ''false'' then Bool False
      else
        (case (if ty = Some ''number'' \<or> (ty = None \<and> numericPattern raw)
               then toNumber raw else None) of
           Some n \<Rightarrow> Num n
         | None \<Rightarrow>
             if startsWith raw [CHR 0x22] \<and> endsWith raw [CHR 0x22] then Str (slice raw 1 (- 1))
             else if startsWith raw [CHR 0x27] \<and> endsWith raw [CHR 0x27] then Str (slice raw 1 (- 1))
             else Str raw))"

fun digitValue :: "char \<Rightarrow> nat" where
  "digitValue c = of_char c - 48"

definition decimalNumber :: "string \<Rightarrow> int option" where
  \<comment> \<open>\<open>Number\<close> on the texts used as concrete inputs below: an optionally signed run of
      digits is its value, any other text of these inputs is not a number.\<close>
  "decimalNumber s =
     (let body = (case s of c # cs \<Rightarrow> if c = CHR ''-'' then cs else s | [] \<Rightarrow> s);
          v = foldl (\<lambda>a c. 10 * a + int (digitValue c)) 0 body
      in if body \<noteq> [] \<and> list_all isDigit body
         then Some (if body = s then v else - v) else None)"


section \<open>Progress counter\<close>

datatype progress_msg =
    Text string
  | Serializing nat nat int  \<comment> \<open>\<open>Serializing... <completed> / <total> items (<pct>%)\<close>\<close>

text \<open>
  \<open>progress\<close> is the sink the counter was constructed with: the messages reported to
  it so far, oldest first. \<open>addItems\<close> is only ever called with the length of an array,
  so the counts are natural numbers.
\<close>

record SerializeCounter =
  total :: nat
  completed :: nat
  lastPct :: int
  progress :: "progress_msg list"

definition newCounter :: "progress_msg list \<Rightarrow> SerializeCounter" where
  "newCounter sink = \<lparr>total = 0, completed = 0, lastPct = - 1, progress = sink\<rparr>"

text \<open>
  \<open>floorPct c t\<close> stands for \<open>Math.floor((c / t) * 100)\<close>, which JavaScript computes
  with two roundings in double precision, so it can differ from the exact quotient
  (\<open>29 / 100 * 100\<close> is just below \<open>29\<close>). It is a parameter of the counter;
  \<open>exactPct\<close> is the quotient without rounding, which agrees with JavaScript wherever
  \<open>c / t\<close> and its hundredfold are representable.
\<close>

definition exactPct :: "nat \<Rightarrow> nat \<Rightarrow> int" where
  "exactPct c t = int ((c * 100) div t)"

definition report :: "(nat \<Rightarrow> nat \<Rightarrow> int) \<Rightarrow> SerializeCounter \<Rightarrow> SerializeCounter" where
  "report floorPct c =
     (if total c = 0 then c
      else
        (let pct = min 99 (floorPct (completed c) (total c))
         in if pct = lastPct c then c
            else c\<lparr>lastPct := pct,
                   progress := progress c @ [Serializing (completed c) (total c) pct]\<rparr>))"

definition addItems :: "(nat \<Rightarrow> nat \<Rightarrow> int) \<Rightarrow> nat \<Rightarrow> SerializeCounter \<Rightarrow> SerializeCounter" where
  "addItems floorPct n c = report floorPct (c\<lparr>total := total c + n\<rparr>)"

definition completeItem :: "(nat \<Rightarrow> nat \<Rightarrow> int) \<Rightarrow> SerializeCounter \<Rightarrow> SerializeCounter" where
  "completeItem floorPct c = report floorPct (c\<lparr>completed := completed c + 1\<rparr>)"

datatype counter_call = AddItems nat | CompleteItem

fun counterCall :: "(nat \<Rightarrow> nat \<Rightarrow> int) \<Rightarrow> SerializeCounter \<Rightarrow> counter_call \<Rightarrow> SerializeCounter" where
  "counterCall floorPct c (AddItems n) = addItems floorPct n c"
| "counterCall floorPct c CompleteItem = completeItem floorPct c"

definition counterCalls :: "(nat \<Rightarrow> nat \<Rightarrow> int) \<Rightarrow> counter_call list \<Rightarrow> SerializeCounter \<Rightarrow> SerializeCounter" where
  "counterCalls floorPct calls c = foldl (counterCall floorPct) c calls"

fun percentages :: "progress_msg list \<Rightarrow> int list" where
  "percentages [] = []"
| "percentages (Serializing c t p # ms) = p # percentages ms"
| "percentages (Text s # ms) = percentages ms"

fun reportedTotals :: "progress_msg list \<Rightarrow> nat list" where
  "reportedTotals [] = []"
| "reportedTotals (Serializing c t p # ms) = t # reportedTotals ms"
| "reportedTotals (Text s # ms) = reportedTotals ms"


section \<open>Bounded concurrency gate\<close>

text \<open>
  The queue of the source holds the \<open>resolve\<close> callbacks of the callers that wait; each
  is identified here with the task \<open>'t\<close> whose \<open>run\<close> call is waiting. \<open>acquire\<close>
  tells whether its promise is already resolved (the caller is admitted at once), and
  \<open>release\<close> tells which waiter, if any, it has called.
\<close>

definition DAP_CONCURRENCY :: int where
  \<comment> \<open>the limit of the one semaphore a capture creates\<close>
  "DAP_CONCURRENCY = 20"

record 't Semaphore =
  active :: int
  queue :: "'t list"
  limit :: int

definition newSemaphore :: "int \<Rightarrow> 't Semaphore" where
  "newSemaphore n = \<lparr>active = 0, queue = [], limit = n\<rparr>"

definition acquire :: "'t \<Rightarrow> 't Semaphore \<Rightarrow> 't Semaphore \<times> bool" where
  "acquire t s =
     (if active s < limit s then (s\<lparr>active := active s + 1\<rparr>, True)
      else (s\<lparr>queue := queue s @ [t]\<rparr>, False))"

definition release :: "'t Semaphore \<Rightarrow> 't Semaphore \<times> 't option" where
  "release s =
     (let s1 = s\<lparr>active := active s - 1\<rparr>
      in case queue s1 of
           [] \<Rightarrow> (s1, None)
         | next # rest \<Rightarrow> (s1\<lparr>queue := rest, active := active s1 + 1\<rparr>, Some next))"

text \<open>
  The callers of \<open>run\<close> interleave on one thread. A gate is the semaphore together with
  the tasks that hold a slot (their \<open>acquire\<close> has resolved and their \<open>fn\<close> has not yet
  settled). \<open>Run t\<close> is a call \<open>run(fn)\<close> for task \<open>t\<close>; \<open>Settle t ok\<close> is the moment the
  \<open>fn\<close> of \<open>t\<close> fulfils (\<open>ok\<close>) or rejects, where the \<open>finally\<close> block releases. A task
  that holds no slot cannot settle: the event is refused with \<open>None\<close>.
\<close>

record 't gate =
  sem :: "'t Semaphore"
  holding :: "'t list"

datatype 't gate_event = Run 't | Settle 't bool

definition newGate :: "int \<Rightarrow> 't gate" where
  "newGate n = \<lparr>sem = newSemaphore n, holding = []\<rparr>"

fun gateStep :: "'t gate \<Rightarrow> 't gate_event \<Rightarrow> 't gate option" where
  "gateStep g (Run t) =
     (let (s, admitted) = acquire t (sem g)
      in Some \<lparr>sem = s, holding = (if admitted then holding g @ [t] else holding g)\<rparr>)"
| "gateStep g (Settle t ok) =
     (if t \<in> set (holding g) then
        (let (s, next) = release (sem g)
         in Some \<lparr>sem = s,
                  holding = remove1 t (holding g) @ (case next of None \<Rightarrow> [] | Some n \<Rightarrow> [n])\<rparr>)
      else None)"

fun gateRun :: "'t gate \<Rightarrow> 't gate_event list \<Rightarrow> 't gate option" where
  "gateRun g [] = Some g"
| "gateRun g (e # es) = (case gateStep g e of None \<Rightarrow> None | Some g' \<Rightarrow> gateRun g' es)"


section \<open>The debugger, the editor and the file system\<close>

datatype 'a reply = Resolved 'a | Rejected "string option"
  \<comment> \<open>a request is fulfilled, or rejected with an error whose \<open>message\<close> may be missing\<close>

record DapThread =
  t_id :: int
  t_name :: string

record DapStackFrame =
  f_id :: int
  f_name :: "string option"
  f_sourcePath :: "string option"
  f_line :: "int option"

record DapVariable =
  v_name :: string
  v_value :: string
  v_type :: "string option"
  variablesReference :: int

record EvaluateResponse =
  r_result :: string
  r_type :: "string option"
  r_variablesReference :: int

record SnapshotSource =
  src_file :: string
  src_line :: int
  src_functionName :: string

record SnapshotFrame =
  fr_name :: "string option"
  fr_id :: int

record 'n Snapshot =
  snap_version :: nat
  snap_capturedAt :: string
  snap_source :: SnapshotSource
  snap_frame :: SnapshotFrame
  snap_variables :: "(string \<times> 'n jsval) list"

datatype request =
    Threads
  | StackTrace int
  | Evaluate string int string  \<comment> \<open>expression, frameId, context\<close>
  | Variables int

datatype effect =
    ShowErrorMessage string
  | CustomRequest request
  | ReadFileSync string
  | UnlinkSync string
  | MkdirSync string
  | WriteFileSync string string

datatype err = Rejection "string option" | TypeError | FsError

text \<open>
  Everything the engine reads from outside is a field of the world. A request without a
  timeout (\<open>variables\<close>, the fast path's \<open>evaluate\<close>) is taken to settle; a request under
  \<open>withTimeout\<close> has \<open>None\<close> when it does not settle within the five seconds. A missing
  response, or a missing field of it, is \<open>None\<close> inside \<open>Resolved\<close>.
  \<open>cancelled k\<close> is what \<open>token.isCancellationRequested\<close> gives the \<open>k\<close>-th time it is
  read.
\<close>

record 'n world =
  toNumber :: "string \<Rightarrow> 'n option"
  floorPct :: "nat \<Rightarrow> nat \<Rightarrow> int"
  JSON_parse :: "string \<Rightarrow> 'n jsval option"
  JSON_stringify :: "'n Snapshot \<Rightarrow> string"
  JSON_quote :: "string \<Rightarrow> string"
  pathJoin :: "string list \<Rightarrow> string"
  tmpdir :: string
  dateNow :: string
  randomBase36 :: string
  nowISO :: string
  activeDebugSession :: bool
  selectedText :: "string option"
  configMaxDepth :: "int option"
  cancelled :: "nat \<Rightarrow> bool"
  threadsRequest :: "DapThread list option reply option"
  stackTraceRequest :: "int \<Rightarrow> DapStackFrame list option reply option"
  evaluateHover :: "string \<Rightarrow> int \<Rightarrow> EvaluateResponse option reply option"
  evaluateRepl :: "string \<Rightarrow> int \<Rightarrow> string option reply"
  debuggeeFiles :: "string \<Rightarrow> int \<Rightarrow> (string \<times> string) list \<Rightarrow> (string \<times> string) list"
  variablesRequest :: "int \<Rightarrow> DapVariable list option reply"
  unlinkDenied :: bool
  mkdirFails :: bool
  writeFails :: bool

text \<open>
  The state the engine changes: the calls it has made, oldest first; the files of the
  file system it shares with the debuggee; the progress counter, whose sink is the
  progress object of the capture; how often the cancellation token has been read.
\<close>

record st =
  effects :: "effect list"
  files :: "(string \<times> string) list"
  counter :: SerializeCounter
  tokenReads :: nat

definition call :: "effect \<Rightarrow> st \<Rightarrow> st" where
  "call e s = s\<lparr>effects := effects s @ [e]\<rparr>"

definition progressReport :: "string \<Rightarrow> st \<Rightarrow> st" where
  "progressReport m s = s\<lparr>counter := (counter s)\<lparr>progress := progress (counter s) @ [Text m]\<rparr>\<rparr>"


section \<open>Graph walker\<close>

text \<open>
  The source starts the walks of all children of a node in one pass of \<open>children.map\<close>
  and awaits them together under \<open>Promise.all\<close>: the siblings read the token one after
  the other before any of their requests is answered, their requests are outstanding
  together, each passing through \<open>semaphore.run\<close>, and a sibling runs on after another
  has been rejected. The definition below walks the children one after the other, depth
  first, in the order of the assembled result, and stops at the first child that is
  rejected. Walked this way, the gate admits every request at once, so it is not part
  of the walker's state; its behaviour under interleaving is the transition system
  above.

  The two agree on the value of the walk and on the requests made, up to their order,
  when no reading of the token during the walk sees a cancellation and no request is
  rejected. They can differ in which nodes see a cancellation that is requested while
  the walk is under way, and in the requests that are made after a rejection. What is
  proved of the walk below is therefore about a single call and the way its value is
  assembled from the values of the calls on its children, about a walk during which no
  cancellation is seen, about the requests regardless of their order, or about a
  capture whose outcome does not depend on the value of the walk. \<open>depth\<close> and
  \<open>maxDepth\<close> are whole numbers of levels.
\<close>

function serializeVariable ::
    "'n world \<Rightarrow> DapVariable \<Rightarrow> int \<Rightarrow> int \<Rightarrow> st \<Rightarrow> (err + 'n jsval) \<times> st"
  and serializeEach ::
    "'n world \<Rightarrow> DapVariable list \<Rightarrow> int \<Rightarrow> int \<Rightarrow> st \<Rightarrow> (err + 'n jsval list) \<times> st"
where
  "serializeVariable w v depth maxDepth s =
     (let s1 = s\<lparr>tokenReads := tokenReads s + 1\<rparr>
      in if cancelled w (tokenReads s) then (Inr (Str ''[cancelled]''), s1)
         else if variablesReference v = 0 \<or> depth \<ge> maxDepth then
           (if variablesReference v \<noteq> 0 then
              (Inr (Str (''[unresolved: '' @ (case v_type v of None \<Rightarrow> ''object'' | Some t \<Rightarrow> t) @ '']'')), s1)
            else (Inr (parsePrimitiveValue (toNumber w) (v_value v) (v_type v)), s1))
         else
           (let s2 = call (CustomRequest (Variables (variablesReference v))) s1
            in case variablesRequest w (variablesReference v) of
                 Rejected e \<Rightarrow> (Inl (Rejection e), s2)
               | Resolved response \<Rightarrow>
                   (let children = (case response of None \<Rightarrow> [] | Some vs \<Rightarrow> vs);
                        isArrayLike = (length children > 0 \<and>
                                       list_all (\<lambda>c. digitsPattern (v_name c)) children)
                    in if isArrayLike then
                         (case serializeEach w children (depth + 1) maxDepth
                                 (s2\<lparr>counter := addItems (floorPct w) (length children) (counter s2)\<rparr>) of
                            (Inl e, s3) \<Rightarrow> (Inl e, s3)
                          | (Inr results, s3) \<Rightarrow> (Inr (Arr results), s3))
                       else
                         (let relevant = filter (\<lambda>c. \<not> startsWith (v_name c) ''[['') children
                          in case serializeEach w relevant (depth + 1) maxDepth
                                    (s2\<lparr>counter := addItems (floorPct w) (length relevant) (counter s2)\<rparr>) of
                               (Inl e, s3) \<Rightarrow> (Inl e, s3)
                             | (Inr results, s3) \<Rightarrow>
                                 (Inr (Obj (fromEntries (zip (map v_name relevant) results))), s3)))))"
| "serializeEach w [] depth maxDepth s = (Inr [], s)"
| "serializeEach w (child # rest) depth maxDepth s =
     (case serializeVariable w child depth maxDepth s of
        (Inl e, s1) \<Rightarrow> (Inl e, s1)
      | (Inr result, s1) \<Rightarrow>
          (case serializeEach w rest depth maxDepth
                  (s1\<lparr>counter := completeItem (floorPct w) (counter s1)\<rparr>) of
             (Inl e, s2) \<Rightarrow> (Inl e, s2)
           | (Inr results, s2) \<Rightarrow> (Inr (result # results), s2)))"
  by pat_completeness auto
termination
  by (relation "measures
        [\<lambda>x. case x of Inl (w, v, depth, maxDepth, s) \<Rightarrow> 2 * nat (maxDepth - depth)
                     | Inr (w, vs, depth, maxDepth, s) \<Rightarrow> 2 * nat (maxDepth - depth) + 1,
         \<lambda>x. case x of Inl (w, v, depth, maxDepth, s) \<Rightarrow> 0
                     | Inr (w, vs, depth, maxDepth, s) \<Rightarrow> length vs]") auto


section \<open>Fast-path serializer\<close>

definition tmpFileName :: "'n world \<Rightarrow> string" where
  "tmpFileName w =
     pathJoin w [tmpdir w, ''data-snapshot-'' @ dateNow w @ ''-'' @ drop 2 (randomBase36 w) @ ''.json'']"

definition serializeScript :: "string \<Rightarrow> string \<Rightarrow> string" where
  "serializeScript escapedPath expression =
     ''(() => { '' @
     ''var __s = new WeakSet(); '' @
     ''require('fs').writeFileSync('' @ escapedPath @ '', JSON.stringify('' @ expression @ '', function(k, v) { '' @
     ''if (typeof v === 'object' && v !== null) { if (__s.has(v)) return '[circular]'; __s.add(v); } '' @
     ''if (typeof v === 'function') return '[function]'; '' @
     ''if (typeof v === 'bigint') return v.toString(); '' @
     ''return v; })); '' @
     ''return 'ok'; })()''"

definition readFileSync :: "string \<Rightarrow> st \<Rightarrow> (unit + string) \<times> st" where
  \<comment> \<open>throws when the file does not exist\<close>
  "readFileSync path s =
     (let s1 = call (ReadFileSync path) s
      in case map_of (files s1) path of None \<Rightarrow> (Inl (), s1) | Some text \<Rightarrow> (Inr text, s1))"

definition unlinkSync :: "'n world \<Rightarrow> string \<Rightarrow> st \<Rightarrow> (unit + unit) \<times> st" where
  \<comment> \<open>throws when the file does not exist or may not be removed\<close>
  "unlinkSync w path s =
     (let s1 = call (UnlinkSync path) s
      in if map_of (files s1) path = None \<or> unlinkDenied w then (Inl (), s1)
         else (Inr (), s1\<lparr>files := filter (\<lambda>(p, text). p \<noteq> path) (files s1)\<rparr>))"

definition fastSerializeTry :: "'n world \<Rightarrow> string \<Rightarrow> string \<Rightarrow> int \<Rightarrow> st \<Rightarrow> (unit + 'n jsval option) \<times> st" where
  \<comment> \<open>the \<open>try\<close> block: \<open>Inl\<close> is an exception thrown in it, \<open>Inr None\<close> is leaving it
      without a \<open>return\<close>\<close>
  "fastSerializeTry w tmpFile script frameId s =
     (let s1 = (call (CustomRequest (Evaluate script frameId ''repl'')) s)
                 \<lparr>files := debuggeeFiles w script frameId (files s)\<rparr>
      in case evaluateRepl w script frameId of
           Rejected e \<Rightarrow> (Inl (), s1)
         | Resolved None \<Rightarrow> (Inr None, s1)
         | Resolved (Some result) \<Rightarrow>
             if includesText result ''ok'' then
               (case readFileSync tmpFile s1 of
                  (Inl x, s2) \<Rightarrow> (Inl (), s2)
                | (Inr json, s2) \<Rightarrow>
                    (case JSON_parse w json of
                       None \<Rightarrow> (Inl (), s2)
                     | Some v \<Rightarrow> (Inr (Some v), s2)))
             else (Inr None, s1))"

definition fastSerialize :: "'n world \<Rightarrow> string \<Rightarrow> int \<Rightarrow> st \<Rightarrow> 'n jsval \<times> st" where
  \<comment> \<open>\<open>Undefined\<close> is the result \<open>undefined\<close>: the fast path is unavailable\<close>
  "fastSerialize w expression frameId s =
     (let tmpFile = tmpFileName w;
          escapedPath = JSON_quote w tmpFile;
          script = serializeScript escapedPath expression;
          (tried, s1) = fastSerializeTry w tmpFile script frameId s;
          (removed, s2) = unlinkSync w tmpFile s1
      in case tried of
           Inr (Some v) \<Rightarrow> (v, s2)
         | Inr None \<Rightarrow> (Undefined, s2)
         | Inl thrown \<Rightarrow> (Undefined, s2))"


section \<open>Capture orchestrator\<close>

text \<open>
  The ellipsis and the dash in the messages of the source are written in ASCII.
\<close>

definition isNameChar :: "char \<Rightarrow> bool" where
  "isNameChar c = (c \<in> set ''abcdefghijklmnopqrstuvwxyzABCDEFGHIJKLMNOPQRSTUVWXYZ0123456789_-'')"

definition sanitizeName :: "string \<Rightarrow> string" where
  \<comment> \<open>\<open>name.replace(/[^a-zA-Z0-9_-]/g, "_").slice(0, 64)\<close>\<close>
  "sanitizeName nm = slice (map (\<lambda>c. if isNameChar c then c else CHR ''_'') nm) 0 64"

definition timestampOf :: "string \<Rightarrow> string" where
  \<comment> \<open>\<open>now.toISOString().replace(/[:.]/g, "-")\<close>\<close>
  "timestampOf isoText = map (\<lambda>c. if c = CHR '':'' \<or> c = CHR ''.'' then CHR ''-'' else c) isoText"

definition timeoutMessage :: "string \<Rightarrow> string" where
  "timeoutMessage label =
     ''Data Snapshot: Timed out waiting for '' @ label @ ''. Is the debugger paused at a breakpoint?''"

definition notValidMessage :: "string \<Rightarrow> string" where
  "notValidMessage expression =
     ''Data Snapshot: '' @ [CHR 0x22] @ expression @ [CHR 0x22] @ '' is not a valid expression. '' @
     ''Select a single variable name or property access (e.g. '' @ [CHR 0x22] @ ''listings'' @ [CHR 0x22] @
     '' or '' @ [CHR 0x22] @ ''order.items'' @ [CHR 0x22] @ '').''"

definition couldNotEvaluateMessage :: "string \<Rightarrow> string" where
  "couldNotEvaluateMessage expression =
     ''Data Snapshot: Could not evaluate '' @ [CHR 0x22] @ expression @ [CHR 0x22] @ ''. '' @
     ''Make sure the debugger is paused and the variable is in scope.''"

definition safeNameOf :: "string \<Rightarrow> string \<Rightarrow> string \<Rightarrow> string" where
  "safeNameOf functionName expression timestamp =
     sanitizeName functionName @ ''_'' @ sanitizeName expression @ ''_'' @ timestamp"

definition writeSnapshot ::
    "'n world \<Rightarrow> string \<Rightarrow> string \<Rightarrow> DapStackFrame \<Rightarrow> 'n jsval \<Rightarrow> st \<Rightarrow>
     (err + (string \<times> 'n Snapshot) option) \<times> st" where
  \<comment> \<open>from \<open>const now = new Date()\<close> to the end of the callback\<close>
  "writeSnapshot w workspaceRoot expression topFrame serialized s =
     (let timestamp = timestampOf (nowISO w);
          functionName = (case f_name topFrame of None \<Rightarrow> ''unknown'' | Some n \<Rightarrow> n);
          snapshot = \<lparr>snap_version = 1,
                      snap_capturedAt = nowISO w,
                      snap_source = \<lparr>src_file = (case f_sourcePath topFrame of None \<Rightarrow> [] | Some p \<Rightarrow> p),
                                      src_line = (case f_line topFrame of None \<Rightarrow> 0 | Some l \<Rightarrow> l),
                                      src_functionName = functionName\<rparr>,
                      snap_frame = \<lparr>fr_name = f_name topFrame, fr_id = f_id topFrame\<rparr>,
                      snap_variables = [(expression, serialized)]\<rparr>;
          snapshotsDir = pathJoin w [workspaceRoot, ''.snapshots'', ''snapshots''];
          s1 = call (MkdirSync snapshotsDir) s
      in if mkdirFails w then (Inl FsError, s1)
         else
           (let safeName = safeNameOf functionName expression timestamp;
                snapshotPath = pathJoin w [snapshotsDir, safeName @ ''.json''];
                text = JSON_stringify w snapshot;
                s2 = call (WriteFileSync snapshotPath text) s1
            in if writeFails w then (Inl FsError, s2)
               else (Inr (Some (snapshotPath, snapshot)),
                     s2\<lparr>files := (snapshotPath, text) # filter (\<lambda>(p, t). p \<noteq> snapshotPath) (files s2)\<rparr>)))"

definition afterSerialize ::
    "'n world \<Rightarrow> string \<Rightarrow> string \<Rightarrow> DapStackFrame \<Rightarrow> 'n jsval \<Rightarrow> st \<Rightarrow>
     (err + (string \<times> 'n Snapshot) option) \<times> st" where
  \<comment> \<open>\<open>if (token.isCancellationRequested) return undefined;\<close> and what follows it\<close>
  "afterSerialize w workspaceRoot expression topFrame serialized s =
     (let s1 = s\<lparr>tokenReads := tokenReads s + 1\<rparr>
      in if cancelled w (tokenReads s) then (Inr None, s1)
         else writeSnapshot w workspaceRoot expression topFrame serialized s1)"

definition captureFrame ::
    "'n world \<Rightarrow> string \<Rightarrow> string \<Rightarrow> int \<Rightarrow> DapStackFrame \<Rightarrow> st \<Rightarrow>
     (err + (string \<times> 'n Snapshot) option) \<times> st" where
  \<comment> \<open>the callback from the fast path on, once the top frame is known\<close>
  "captureFrame w workspaceRoot expression maxDepth topFrame s =
     (let (serialized, s1) =
            fastSerialize w expression (f_id topFrame) (progressReport ''Serializing (fast path)...'' s)
      in if serialized = Undefined then
           (let s2 = call (CustomRequest (Evaluate expression (f_id topFrame) ''hover''))
                       (progressReport ''Fast path unavailable - using DAP fallback...'' s1)
            in case evaluateHover w expression (f_id topFrame) of
                 None \<Rightarrow> (Inr None, call (ShowErrorMessage (timeoutMessage ''evaluate'')) s2)
               | Some (Rejected m) \<Rightarrow>
                   (Inr None,
                    call (ShowErrorMessage
                            (case m of
                               None \<Rightarrow> couldNotEvaluateMessage expression
                             | Some t \<Rightarrow> if startsWith t ''Data Snapshot:'' then t
                                         else couldNotEvaluateMessage expression)) s2)
               | Some (Resolved None) \<Rightarrow> (Inl TypeError, s2)
               | Some (Resolved (Some evalResp)) \<Rightarrow>
                   (let dapVar = \<lparr>v_name = expression,
                                  v_value = r_result evalResp,
                                  v_type = r_type evalResp,
                                  variablesReference = r_variablesReference evalResp\<rparr>
                    in case serializeVariable w dapVar 0 maxDepth s2 of
                         (Inl e, s3) \<Rightarrow> (Inl e, s3)
                       | (Inr v, s3) \<Rightarrow> afterSerialize w workspaceRoot expression topFrame v s3))
         else afterSerialize w workspaceRoot expression topFrame serialized s1)"

definition captureInProgress ::
    "'n world \<Rightarrow> string \<Rightarrow> string \<Rightarrow> st \<Rightarrow> (err + (string \<times> 'n Snapshot) option) \<times> st" where
  \<comment> \<open>the callback of \<open>withProgress\<close>, whose progress object starts empty\<close>
  "captureInProgress w workspaceRoot expression s =
     (let maxDepth = (case configMaxDepth w of None \<Rightarrow> 5 | Some d \<Rightarrow> d);
          s1 = progressReport ''Evaluating expression...'' (s\<lparr>counter := newCounter []\<rparr>);
          s2 = call (CustomRequest Threads) s1
      in case threadsRequest w of
           None \<Rightarrow> (Inr None, call (ShowErrorMessage (timeoutMessage ''threads'')) s2)
         | Some (Rejected m) \<Rightarrow>
             (Inr None,
              call (ShowErrorMessage
                      (case m of None \<Rightarrow> ''Data Snapshot: Failed to get threads.'' | Some t \<Rightarrow> t)) s2)
         | Some (Resolved threadsResp) \<Rightarrow>
             (case (case threadsResp of None \<Rightarrow> [] | Some ts \<Rightarrow> ts) of
                [] \<Rightarrow> (Inr None, call (ShowErrorMessage ''Data Snapshot: No threads found.'') s2)
              | thread0 # others \<Rightarrow>
                  (let s3 = call (CustomRequest (StackTrace (t_id thread0))) s2
                   in case stackTraceRequest w (t_id thread0) of
                        None \<Rightarrow> (Inr None, call (ShowErrorMessage (timeoutMessage ''stack trace'')) s3)
                      | Some (Rejected m) \<Rightarrow>
                          (Inr None,
                           call (ShowErrorMessage
                                   (case m of None \<Rightarrow> ''Data Snapshot: Failed to get stack trace.''
                                            | Some t \<Rightarrow> t)) s3)
                      | Some (Resolved stackResp) \<Rightarrow>
                          (case (case stackResp of None \<Rightarrow> [] | Some fs \<Rightarrow> fs) of
                             [] \<Rightarrow>
                               (Inr None,
                                call (ShowErrorMessage
                                        ''Data Snapshot: No stack frames - is the debugger paused at a breakpoint?'') s3)
                           | topFrame # below \<Rightarrow>
                               captureFrame w workspaceRoot expression maxDepth topFrame s3))))"

definition captureVariable ::
    "'n world \<Rightarrow> string \<Rightarrow> st \<Rightarrow> (err + (string \<times> 'n Snapshot) option) \<times> st" where
  "captureVariable w workspaceRoot s =
     (if \<not> activeDebugSession w then
        (Inr None, call (ShowErrorMessage ''Data Snapshot: No active debug session.'') s)
      else
        (case map_option trim (selectedText w) of
           None \<Rightarrow>
             (Inr None,
              call (ShowErrorMessage ''Data Snapshot: Select a variable or expression in the editor first.'') s)
         | Some expression \<Rightarrow>
             if expression = [] then
               (Inr None,
                call (ShowErrorMessage ''Data Snapshot: Select a variable or expression in the editor first.'') s)
             else if startsWith expression ''['' \<or> startsWith expression ''{''
                     \<or> includesText expression [CHR 0x0A] then
               (Inr None, call (ShowErrorMessage (notValidMessage expression)) s)
             else captureInProgress w workspaceRoot expression s))"


section \<open>Reading a materialized value\<close>

text \<open>
  The depths at which a value holds a string that starts as the "unresolved" sentinel
  does: \<open>sentinelDepths\<close> counts from 0 at the value itself, \<open>childSentinelDepths\<close>
  counts from 0 at its immediate children.
\<close>

fun sentinelDepths :: "'n jsval \<Rightarrow> nat list" where
  "sentinelDepths (Str t) = (if startsWith t ''[unresolved: '' then [0] else [])"
| "sentinelDepths (Arr xs) = map Suc (concat (map sentinelDepths xs))"
| "sentinelDepths (Obj es) = map Suc (concat (map (\<lambda>e. sentinelDepths (snd e)) es))"
| "sentinelDepths v = []"

definition childSentinelDepths :: "'n jsval \<Rightarrow> nat list" where
  "childSentinelDepths v =
     (case v of
        Arr xs \<Rightarrow> concat (map sentinelDepths xs)
      | Obj es \<Rightarrow> concat (map (\<lambda>e. sentinelDepths (snd e)) es)
      | _ \<Rightarrow> [])"

text \<open>The sanitization of a file name component as the specification words it.\<close>

definition sanitizeNameStripping :: "string \<Rightarrow> string" where
  \<comment> \<open>the sanitization in the words of the specification: the characters that are not
      alphanumeric, underscore or hyphen are stripped, then the text is truncated\<close>
  "sanitizeNameStripping nm = take 64 (filter isNameChar nm)"


text \<open>
  A position in a value is the list of steps that lead to it from the value: an index
  into a sequence or a key of a mapping. \<open>valueAt\<close> is the value at a position, if the
  value has that position.
\<close>

datatype step = Index nat | Key string

fun valueAt :: "'n jsval \<Rightarrow> step list \<Rightarrow> 'n jsval option" where
  "valueAt v [] = Some v"
| "valueAt (Arr xs) (Index i # p) = (if i < length xs then valueAt (xs ! i) p else None)"
| "valueAt (Obj es) (Key k # p) = (case map_of es k of None \<Rightarrow> None | Some x \<Rightarrow> valueAt x p)"
| "valueAt v (st # p) = None"


section \<open>Reading the variables of the debuggee\<close>

text \<open>
  The graph that the \<open>variables\<close> requests of a session describe. \<open>fetchedChildren\<close> are
  the children in the response for the handle of a node (\<open>response?.variables ?? []\<close>),
  \<open>arrayLike\<close> is the test \<open>isArrayLike\<close> of the walker, and \<open>shownChildren\<close> are the
  children the walker descends into: all of them under an array-like node, those whose
  name does not start with \<open>[[\<close> otherwise, none under a node without a handle.
  \<open>remoteAt\<close> is the node at a position: an index selects a child of an array-like node,
  a key selects the last child of that name of any other node. \<open>nodesAtLevel\<close> are the
  nodes a given number of levels below a node.
\<close>

definition fetchedChildren :: "'n world \<Rightarrow> DapVariable \<Rightarrow> DapVariable list" where
  "fetchedChildren w v =
     (case variablesRequest w (variablesReference v) of
        Resolved response \<Rightarrow> (case response of None \<Rightarrow> [] | Some vs \<Rightarrow> vs)
      | Rejected e \<Rightarrow> [])"

definition arrayLike :: "DapVariable list \<Rightarrow> bool" where
  "arrayLike children = (children \<noteq> [] \<and> list_all (\<lambda>c. digitsPattern (v_name c)) children)"

definition shownChildren :: "'n world \<Rightarrow> DapVariable \<Rightarrow> DapVariable list" where
  "shownChildren w v =
     (if variablesReference v = 0 then []
      else if arrayLike (fetchedChildren w v) then fetchedChildren w v
      else filter (\<lambda>c. \<not> startsWith (v_name c) ''[['') (fetchedChildren w v))"

fun remoteAt :: "'n world \<Rightarrow> DapVariable \<Rightarrow> step list \<Rightarrow> DapVariable option" where
  "remoteAt w v [] = Some v"
| "remoteAt w v (Index i # p) =
     (if variablesReference v \<noteq> 0 \<and> arrayLike (fetchedChildren w v) \<and> i < length (shownChildren w v)
      then remoteAt w (shownChildren w v ! i) p else None)"
| "remoteAt w v (Key k # p) =
     (if variablesReference v \<noteq> 0 \<and> \<not> arrayLike (fetchedChildren w v)
      then (case map_of (rev (map (\<lambda>c. (v_name c, c)) (shownChildren w v))) k of
              None \<Rightarrow> None
            | Some c \<Rightarrow> remoteAt w c p)
      else None)"

fun nodesAtLevel :: "'n world \<Rightarrow> nat \<Rightarrow> DapVariable \<Rightarrow> DapVariable list" where
  "nodesAtLevel w 0 v = [v]"
| "nodesAtLevel w (Suc k) v = concat (map (nodesAtLevel w k) (shownChildren w v))"

definition unresolvedText :: "DapVariable \<Rightarrow> string" where
  \<comment> \<open>the text of the "unresolved" sentinel, with \<open>variable.type ?? "object"\<close> in it\<close>
  "unresolvedText v = ''[unresolved: '' @ (case v_type v of None \<Rightarrow> ''object'' | Some t \<Rightarrow> t) @ '']''"

text \<open>
  What a walk with the depth bound \<open>M\<close> makes of the node at a position, which is at
  depth \<open>d\<close>: there is nothing at a position that is no node or lies below depth \<open>M\<close>;
  a node without a handle is decoded; a node with a handle is the "unresolved" sentinel
  at depth \<open>M\<close> and a sequence or a mapping above it. \<open>cutAtDepth\<close> says so of every
  position of a value, for a walk that starts at depth \<open>depth\<close>.
\<close>

definition cutValue :: "'n world \<Rightarrow> int \<Rightarrow> int \<Rightarrow> DapVariable option \<Rightarrow> 'n jsval option \<Rightarrow> bool" where
  "cutValue w M d node x =
     (case node of
        None \<Rightarrow> x = None
      | Some u \<Rightarrow>
          if M < d then x = None
          else if variablesReference u = 0 then
            x = Some (parsePrimitiveValue (toNumber w) (v_value u) (v_type u))
          else if d = M then x = Some (Str (unresolvedText u))
          else (\<exists>xs. x = Some (Arr xs)) \<or> (\<exists>es. x = Some (Obj es)))"

definition cutAtDepth :: "'n world \<Rightarrow> int \<Rightarrow> int \<Rightarrow> DapVariable \<Rightarrow> 'n jsval \<Rightarrow> bool" where
  "cutAtDepth w M depth v r =
     (\<forall>p. cutValue w M (depth + int (length p)) (remoteAt w v p) (valueAt r p))"

text \<open>
  A \<open>variables\<close> request for a node with a handle that lies above depth \<open>M\<close>, where the
  node \<open>v\<close> is at depth \<open>depth\<close>.
\<close>

definition requestAbove :: "'n world \<Rightarrow> int \<Rightarrow> int \<Rightarrow> DapVariable \<Rightarrow> effect \<Rightarrow> bool" where
  "requestAbove w M depth v e =
     (\<exists>k u. depth + int k < M \<and> u \<in> set (nodesAtLevel w k v) \<and> variablesReference u \<noteq> 0 \<and>
            e = CustomRequest (Variables (variablesReference u)))"


section \<open>Concrete debugging sessions\<close>

text \<open>
  A composite nested \<open>D\<close> levels deep: the node at depth \<open>d < D\<close> has the handle
  \<open>d + 1\<close> and one child; the node at depth \<open>D\<close> is the number \<open>42\<close>.
\<close>

definition chainVariables :: "int \<Rightarrow> int \<Rightarrow> DapVariable list option reply" where
  "chainVariables D ref =
     Resolved (Some [if ref < D
                     then \<lparr>v_name = ''next'', v_value = ''Object'', v_type = Some ''Object'',
                           variablesReference = ref + 1\<rparr>
                     else \<lparr>v_name = ''next'', v_value = ''42'', v_type = Some ''number'',
                           variablesReference = 0\<rparr>])"

definition chainRoot :: DapVariable where
  "chainRoot = \<lparr>v_name = ''root'', v_value = ''Object'', v_type = Some ''Object'', variablesReference = 1\<rparr>"

fun chainResult :: "nat \<Rightarrow> 'n jsval" where
  "chainResult 0 = Str ''[unresolved: Object]''"
| "chainResult (Suc n) = Obj [(''next'', chainResult n)]"

fun joinPaths :: "string list \<Rightarrow> string" where
  "joinPaths [] = ''.''"
| "joinPaths [p] = p"
| "joinPaths (p # ps) = p @ ''/'' @ joinPaths ps"

definition demoFrame :: DapStackFrame where
  "demoFrame = \<lparr>f_id = 7, f_name = Some ''loadOrder'', f_sourcePath = Some ''/app/src/orders.ts'',
                f_line = Some 12\<rparr>"

definition primitiveVar :: "string \<Rightarrow> string \<Rightarrow> string \<Rightarrow> DapVariable" where
  "primitiveVar nm text ty = \<lparr>v_name = nm, v_value = text, v_type = Some ty, variablesReference = 0\<rparr>"

definition compositeVar :: "string \<Rightarrow> string \<Rightarrow> int \<Rightarrow> DapVariable" where
  "compositeVar nm ty ref = \<lparr>v_name = nm, v_value = ty, v_type = Some ty, variablesReference = ref\<rparr>"

definition demoVariables :: "int \<Rightarrow> DapVariable list option reply" where
  "demoVariables ref =
     (if ref = 1 then
        Resolved (Some [primitiveVar ''0'' ''10'' ''number'', primitiveVar ''1'' ''20'' ''number'',
                        primitiveVar ''2'' ''30'' ''number''])
      else if ref = 2 then
        Resolved (Some [primitiveVar ''0'' ''1'' ''number'', primitiveVar ''foo'' ''true'' ''boolean''])
      else if ref = 3 then
        Resolved (Some [compositeVar ''items'' ''Array'' 1, compositeVar ''[[Prototype]]'' ''Object'' 9,
                        compositeVar ''mixed'' ''Object'' 2])
      else if ref = 4 then Rejected (Some ''variables are gone'')
      else if ref = 5 then
        Resolved (Some [primitiveVar ''a'' ''1'' ''number'', primitiveVar ''[[Prototype]]'' ''Object'' ''object'',
                        primitiveVar ''a'' ''2'' ''number''])
      else Resolved None)"

definition demoTmpFile :: string where
  "demoTmpFile = ''/tmp/data-snapshot-1762056720000-4fzyo82mvyr.json''"

definition demoParse :: "string \<Rightarrow> int jsval option" where
  "demoParse text =
     (if text = ''42'' then Some (Num 42)
      else if text = ''null'' then Some Null
      else None)"

definition demoWorld :: "int world" where
  \<comment> \<open>a paused session in which the fast path succeeds\<close>
  "demoWorld =
     \<lparr>toNumber = decimalNumber,
      floorPct = exactPct,
      JSON_parse = demoParse,
      JSON_stringify = (\<lambda>snapshot. ''{}''),
      JSON_quote = (\<lambda>p. [CHR 0x22] @ p @ [CHR 0x22]),
      pathJoin = joinPaths,
      tmpdir = ''/tmp'',
      dateNow = ''1762056720000'',
      randomBase36 = ''0.4fzyo82mvyr'',
      nowISO = ''2026-11-02T04:12:00.000Z'',
      activeDebugSession = True,
      selectedText = Some ''  order.items '',
      configMaxDepth = None,
      cancelled = (\<lambda>k. False),
      threadsRequest = Some (Resolved (Some [\<lparr>t_id = 1, t_name = ''main''\<rparr>])),
      stackTraceRequest = (\<lambda>threadId. Some (Resolved (Some [demoFrame]))),
      evaluateHover = (\<lambda>expression frameId.
         Some (Resolved (Some \<lparr>r_result = ''Array(3)'', r_type = Some ''Array'', r_variablesReference = 1\<rparr>))),
      evaluateRepl = (\<lambda>script frameId. Resolved (Some [CHR 0x27, CHR ''o'', CHR ''k'', CHR 0x27])),
      debuggeeFiles = (\<lambda>script frameId fs. (demoTmpFile, ''42'') # fs),
      variablesRequest = demoVariables,
      unlinkDenied = False,
      mkdirFails = False,
      writeFails = False\<rparr>"

definition slowWorld :: "int world" where
  \<comment> \<open>the same session with a debuggee that cannot run the script\<close>
  "slowWorld = demoWorld\<lparr>evaluateRepl := (\<lambda>script frameId. Rejected (Some ''require is not defined'')),
                         debuggeeFiles := (\<lambda>script frameId fs. fs)\<rparr>"

definition startState :: st where
  "startState = \<lparr>effects = [], files = [], counter = newCounter [], tokenReads = 0\<rparr>"

definition chainWorld :: "int \<Rightarrow> int world" where
  "chainWorld D = slowWorld\<lparr>variablesRequest := chainVariables D\<rparr>"


definition alreadyCancelled :: "int world" where
  \<comment> \<open>the user has cancelled before the walk starts\<close>
  "alreadyCancelled = slowWorld\<lparr>cancelled := (\<lambda>k. True)\<rparr>"

definition brokenArtifactWorld :: "int world" where
  \<comment> \<open>the debuggee answers ok, but the artifact it wrote is not JSON\<close>
  "brokenArtifactWorld = demoWorld\<lparr>debuggeeFiles := (\<lambda>script frameId fs. (demoTmpFile, ''{'') # fs)\<rparr>"


definition literalWorld :: "int world" where
  \<comment> \<open>the user has selected an array literal\<close>
  "literalWorld = demoWorld\<lparr>selectedText := Some '' [1, 2]''\<rparr>"

definition emptyWorld :: "int world" where
  \<comment> \<open>the user has selected blanks only\<close>
  "emptyWorld = demoWorld\<lparr>selectedText := Some [CHR '' '', CHR 0x0A]\<rparr>"

definition twoLineWorld :: "int world" where
  \<comment> \<open>the selection spans two lines\<close>
  "twoLineWorld = demoWorld\<lparr>selectedText := Some (''order'' @ [CHR 0x0A] @ ''.items'')\<rparr>"


section \<open>Invariants\<close>

text \<open>
  What the counter keeps true of its emissions: no two neighbours are equal, none
  exceeds 99, and \<open>lastPct\<close> is the latest of them.
\<close>

definition emittedOk :: "SerializeCounter \<Rightarrow> bool" where
  "emittedOk c =
     (distinct_adj (percentages (progress c)) \<and>
      (\<forall>p \<in> set (percentages (progress c)). p \<le> 99) \<and>
      (percentages (progress c) \<noteq> [] \<longrightarrow> last (percentages (progress c)) = lastPct c))"

text \<open>Once the total is positive, \<open>lastPct\<close> is the percentage of the current counts.\<close>

definition inStep :: "(nat \<Rightarrow> nat \<Rightarrow> int) \<Rightarrow> SerializeCounter \<Rightarrow> bool" where
  "inStep fl c = (0 < total c \<longrightarrow> lastPct c = min 99 (fl (completed c) (total c)))"

fun isFileWrite :: "effect \<Rightarrow> bool" where
  "isFileWrite (MkdirSync p) = True"
| "isFileWrite (WriteFileSync p t) = True"
| "isFileWrite e = False"


text \<open>
  The snapshot a capture returns holds the selected expression, and its path is the
  name built from the function name, the expression and the time stamp.
\<close>

definition namedAfter ::
    "'n world \<Rightarrow> string \<Rightarrow> string \<Rightarrow> (err + (string \<times> 'n Snapshot) option) \<times> st \<Rightarrow> bool" where
  "namedAfter w workspaceRoot expression out =
     (\<forall>path snapshot. fst out = Inr (Some (path, snapshot)) \<longrightarrow>
        (\<exists>v. snap_variables snapshot = [(expression, v)]) \<and>
        path = pathJoin w [pathJoin w [workspaceRoot, ''.snapshots'', ''snapshots''],
                 sanitizeName (src_functionName (snap_source snapshot)) @ ''_'' @
                 sanitizeName expression @ ''_'' @
                 timestampOf (snap_capturedAt snapshot) @ ''.json''])"

section \<open>Properties of the progress counter\<close>

lemma percentages_append: "percentages (xs @ ys) = percentages xs @ percentages ys"
  by (induction xs rule: percentages.induct) simp_all

lemma reportedTotals_append: "reportedTotals (xs @ ys) = reportedTotals xs @ reportedTotals ys"
  by (induction xs rule: reportedTotals.induct) simp_all

lemma report_percentages:
  "percentages (progress (report fl c)) =
     (if total c = 0 \<or> min 99 (fl (completed c) (total c)) = lastPct c
      then percentages (progress c)
      else percentages (progress c) @ [min 99 (fl (completed c) (total c))])"
  by (simp add: report_def Let_def percentages_append)

lemma report_emittedOk:
  assumes "emittedOk c" "lastPct c' = lastPct c" "progress c' = progress c"
  shows "emittedOk (report fl c')"
  using assms
  by (auto simp: emittedOk_def report_def Let_def percentages_append distinct_adj_append_iff)

lemma counterCall_emittedOk: "emittedOk c \<Longrightarrow> emittedOk (counterCall fl c x)"
  by (cases x) (auto simp: addItems_def completeItem_def intro: report_emittedOk)

lemma counterCalls_emittedOk: "emittedOk c \<Longrightarrow> emittedOk (counterCalls fl xs c)"
  unfolding counterCalls_def
  by (induction xs arbitrary: c) (auto intro: counterCall_emittedOk)

lemma newCounter_emittedOk: "emittedOk (newCounter [])"
  by (simp add: emittedOk_def newCounter_def)

lemma report_inStep: "inStep fl (report fl c)"
  by (simp add: inStep_def report_def Let_def)

lemma counterCalls_inStep: "inStep fl c \<Longrightarrow> inStep fl (counterCalls fl xs c)"
  unfolding counterCalls_def
proof (induction xs arbitrary: c)
  case Nil
  then show ?case by simp
next
  case (Cons x xs)
  have "inStep fl (counterCall fl c x)"
    by (cases x) (simp_all add: addItems_def completeItem_def report_inStep)
  then show ?case using Cons.IH by simp
qed

lemma completeItem_stretch:
  assumes mono: "\<And>t a b. a \<le> b \<Longrightarrow> fl a t \<le> fl b t"
  shows "inStep fl c \<Longrightarrow>
    \<exists>es. percentages (progress (counterCalls fl (replicate k CompleteItem) c)) =
            percentages (progress c) @ es \<and> sorted es \<and> (\<forall>e \<in> set es. lastPct c \<le> e)"
proof (induction k arbitrary: c)
  case 0
  then show ?case by (simp add: counterCalls_def)
next
  case (Suc k)
  let ?c1 = "completeItem fl c"
  have step1: "inStep fl ?c1" by (simp add: completeItem_def report_inStep)
  from Suc.IH [OF step1] obtain es where
    es: "percentages (progress (counterCalls fl (replicate k CompleteItem) ?c1)) =
           percentages (progress ?c1) @ es" "sorted es" "\<forall>e \<in> set es. lastPct ?c1 \<le> e"
    by blast
  have run: "counterCalls fl (replicate (Suc k) CompleteItem) c =
             counterCalls fl (replicate k CompleteItem) ?c1"
    by (simp add: counterCalls_def)
  show ?case
  proof (cases "total c = 0")
    case True
    then have "?c1 = c\<lparr>completed := completed c + 1\<rparr>"
      by (simp add: completeItem_def report_def)
    then have "percentages (progress ?c1) = percentages (progress c)" "lastPct ?c1 = lastPct c"
      by simp_all
    with es run show ?thesis by auto
  next
    case False
    then have old: "lastPct c = min 99 (fl (completed c) (total c))"
      using Suc.prems by (simp add: inStep_def)
    have new: "lastPct ?c1 = min 99 (fl (completed c + 1) (total c))"
      using False by (simp add: completeItem_def report_def Let_def)
    have le: "lastPct c \<le> lastPct ?c1"
      unfolding old new using mono [of "completed c" "completed c + 1" "total c"] by simp
    have "percentages (progress ?c1) =
            percentages (progress c) @ (if lastPct ?c1 = lastPct c then [] else [lastPct ?c1])"
      using False old new by (simp add: completeItem_def report_percentages)
    with es run le show ?thesis
      by (auto intro!: exI [of _ "(if lastPct ?c1 = lastPct c then [] else [lastPct ?c1]) @ es"]
               simp: sorted_append)
  qed
qed

lemma sorted_from_last:
  assumes "sorted es" "\<forall>e \<in> set es. l \<le> e" "xs \<noteq> [] \<longrightarrow> last xs = (l::int)"
  shows "sorted (drop (length xs - 1) (xs @ es))"
proof (cases xs rule: rev_cases)
  case Nil
  then show ?thesis using assms by simp
next
  case (snoc ys y)
  then show ?thesis using assms by (simp add: sorted_append)
qed

lemma exactPct_mono: "a \<le> b \<Longrightarrow> exactPct a t \<le> exactPct b t"
  by (simp add: exactPct_def div_le_mono)

text \<open>
  Claim C3, as stated: for every sequence of \<open>addItems\<close>/\<open>completeItem\<close> calls the
  emitted percentages are non-decreasing, never repeat consecutively and never reach
  100. The first part fails: after \<open>addItems(1)\<close>, \<open>completeItem()\<close>, \<open>addItems(1)\<close>
  the counter has emitted 0, 99 and then 50 (all three quotients are exact in double
  precision).
\<close>

theorem progress_nondecreasing_counterexample:
  "percentages (progress (counterCalls exactPct [AddItems 1, CompleteItem, AddItems 1] (newCounter [])))
     = [0, 99, 50]
   \<and> \<not> sorted (percentages (progress
          (counterCalls exactPct [AddItems 1, CompleteItem, AddItems 1] (newCounter []))))"
  by code_simp

text \<open>
  Claim C3, amended: for every sequence of calls, and whatever the rounding of the
  division, the emitted percentages never repeat consecutively and never reach 100;
  and where the computed percentage does not fall when \<open>completed\<close> grows, the
  emissions of any further stretch of \<open>completeItem\<close> calls, together with the last
  emission before it, are non-decreasing. (An \<open>addItems\<close> call raises the total and may
  emit a lower percentage.)
\<close>

theorem progress_percentages:
  "let c = counterCalls fl calls (newCounter []);
       c' = counterCalls fl (replicate k CompleteItem) c
   in distinct_adj (percentages (progress c)) \<and>
      (\<forall>p \<in> set (percentages (progress c)). p < 100) \<and>
      ((\<forall>t a b. a \<le> b \<longrightarrow> fl a t \<le> fl b t) \<longrightarrow>
         sorted (drop (length (percentages (progress c)) - 1) (percentages (progress c'))))"
proof -
  let ?c = "counterCalls fl calls (newCounter [])"
  have ok: "emittedOk ?c"
    by (rule counterCalls_emittedOk [OF newCounter_emittedOk])
  have st: "inStep fl ?c"
    by (rule counterCalls_inStep) (simp add: inStep_def newCounter_def)
  have "sorted (drop (length (percentages (progress ?c)) - 1)
          (percentages (progress (counterCalls fl (replicate k CompleteItem) ?c))))"
    if mono: "\<forall>t a b. a \<le> b \<longrightarrow> fl a t \<le> fl b t"
  proof -
    from completeItem_stretch [of fl ?c k] mono st obtain es where
      "percentages (progress (counterCalls fl (replicate k CompleteItem) ?c)) =
         percentages (progress ?c) @ es" "sorted es" "\<forall>e \<in> set es. lastPct ?c \<le> e"
      by blast
    then show ?thesis using ok sorted_from_last [of es "lastPct ?c" "percentages (progress ?c)"]
      by (simp add: emittedOk_def)
  qed
  moreover have "\<forall>p \<in> set (percentages (progress ?c)). p < 100"
    using ok by (fastforce simp: emittedOk_def)
  ultimately show ?thesis using ok by (simp add: emittedOk_def Let_def)
qed

theorem progress_percentages_witness:
  "percentages (progress (counterCalls exactPct [AddItems 1, CompleteItem, AddItems 1] (newCounter [])))
     = [0, 99, 50] \<and>
   percentages (progress (counterCalls exactPct (replicate 1 CompleteItem)
      (counterCalls exactPct [AddItems 1, CompleteItem, AddItems 1] (newCounter []))))
     = [0, 99, 50, 99] \<and>
   distinct_adj (percentages (progress
      (counterCalls exactPct [AddItems 1, CompleteItem, AddItems 1] (newCounter [])))) \<and>
   list_all (\<lambda>p. p < 100) (percentages (progress
      (counterCalls exactPct [AddItems 1, CompleteItem, AddItems 1] (newCounter [])))) \<and>
   sorted (drop 2 (percentages (progress (counterCalls exactPct (replicate 1 CompleteItem)
      (counterCalls exactPct [AddItems 1, CompleteItem, AddItems 1] (newCounter []))))))"
proof -
  have mono: "\<forall>t a b. a \<le> b \<longrightarrow> exactPct a t \<le> exactPct b t"
    by (simp add: exactPct_mono)
  have e1: "percentages (progress (counterCalls exactPct [AddItems 1, CompleteItem, AddItems 1] (newCounter [])))
     = [0, 99, 50]"
    by code_simp
  have e2: "percentages (progress (counterCalls exactPct (replicate 1 CompleteItem)
      (counterCalls exactPct [AddItems 1, CompleteItem, AddItems 1] (newCounter []))))
     = [0, 99, 50, 99]"
    by code_simp
  from progress_percentages [of exactPct "[AddItems 1, CompleteItem, AddItems 1]" 1] mono
  have "distinct_adj (percentages (progress
          (counterCalls exactPct [AddItems 1, CompleteItem, AddItems 1] (newCounter [])))) \<and>
        (\<forall>p \<in> set (percentages (progress
          (counterCalls exactPct [AddItems 1, CompleteItem, AddItems 1] (newCounter [])))). p < 100) \<and>
        sorted (drop (length (percentages (progress
          (counterCalls exactPct [AddItems 1, CompleteItem, AddItems 1] (newCounter [])))) - 1)
          (percentages (progress (counterCalls exactPct (replicate 1 CompleteItem)
            (counterCalls exactPct [AddItems 1, CompleteItem, AddItems 1] (newCounter []))))))"
    unfolding Let_def by blast
  then show ?thesis unfolding e1 e2 by simp
qed

lemma counterCalls_totalsOk:
  "\<forall>t \<in> set (reportedTotals (progress c)). 0 < t \<Longrightarrow>
   \<forall>t \<in> set (reportedTotals (progress (counterCalls fl xs c))). 0 < t"
  unfolding counterCalls_def
proof (induction xs arbitrary: c)
  case Nil
  then show ?case by simp
next
  case (Cons x xs)
  have "\<forall>t \<in> set (reportedTotals (progress (counterCall fl c x))). 0 < t"
    using Cons.prems
    by (cases x) (auto simp: addItems_def completeItem_def report_def Let_def reportedTotals_append)
  then show ?case using Cons.IH by simp
qed

lemma counterCalls_silent:
  "(total c = 0 \<longrightarrow> progress c = []) \<Longrightarrow>
   total (counterCalls fl xs c) = 0 \<longrightarrow> progress (counterCalls fl xs c) = []"
  unfolding counterCalls_def
proof (induction xs arbitrary: c)
  case Nil
  then show ?case by simp
next
  case (Cons x xs)
  have "total (counterCall fl c x) = 0 \<longrightarrow> progress (counterCall fl c x) = []"
    using Cons.prems
    by (cases x) (auto simp: addItems_def completeItem_def report_def Let_def)
  then show ?case using Cons.IH by simp
qed

text \<open>
  Claim C10: while no \<open>addItems\<close> call has raised the total above zero, \<open>completeItem\<close>
  emits nothing, because \<open>report\<close> returns early when the total is 0; hence, for every
  sequence of calls, nothing has been emitted as long as the total is still 0, and every
  emitted message carries a positive total, so that no percentage was ever computed by
  a division by zero.
\<close>

theorem no_report_before_total:
  "(total c = 0 \<longrightarrow> progress (completeItem fl c) = progress c) \<and>
   (total (counterCalls fl calls (newCounter [])) = 0 \<longrightarrow>
      progress (counterCalls fl calls (newCounter [])) = []) \<and>
   (\<forall>t \<in> set (reportedTotals (progress (counterCalls fl calls (newCounter [])))). 0 < t)"
proof -
  have "total c = 0 \<longrightarrow> progress (completeItem fl c) = progress c"
    by (simp add: completeItem_def report_def)
  moreover have "total (counterCalls fl calls (newCounter [])) = 0 \<longrightarrow>
      progress (counterCalls fl calls (newCounter [])) = []"
    by (rule counterCalls_silent) (simp add: newCounter_def)
  moreover have "\<forall>t \<in> set (reportedTotals (progress (counterCalls fl calls (newCounter [])))). 0 < t"
    by (rule counterCalls_totalsOk) (simp add: newCounter_def)
  ultimately show ?thesis by blast
qed

theorem no_report_before_total_witness:
  "total (newCounter []) = 0 \<and>
   progress (completeItem exactPct (newCounter [])) = progress (newCounter []) \<and>
   total (counterCalls exactPct [CompleteItem, AddItems 0, CompleteItem] (newCounter [])) = 0 \<and>
   progress (counterCalls exactPct [CompleteItem, AddItems 0, CompleteItem] (newCounter [])) = [] \<and>
   reportedTotals (progress (counterCalls exactPct [CompleteItem, AddItems 2, CompleteItem] (newCounter [])))
     = [2, 2] \<and>
   list_all (\<lambda>t. 0 < t)
     (reportedTotals (progress (counterCalls exactPct [CompleteItem, AddItems 2, CompleteItem] (newCounter []))))"
proof -
  have t0: "total (newCounter []) = 0"
    by (simp add: newCounter_def)
  have t1: "total (counterCalls exactPct [CompleteItem, AddItems 0, CompleteItem] (newCounter [])) = 0"
    by code_simp
  have t2: "reportedTotals (progress (counterCalls exactPct [CompleteItem, AddItems 2, CompleteItem] (newCounter [])))
     = [2, 2]"
    by code_simp
  from no_report_before_total [of "newCounter []" exactPct "[CompleteItem, AddItems 0, CompleteItem]"]
       no_report_before_total [of "newCounter []" exactPct "[CompleteItem, AddItems 2, CompleteItem]"]
       t0 t1 t2
  show ?thesis by (simp add: list_all_iff)
qed

section \<open>Properties of the primitive value decoder\<close>

lemma startsWith_char: "startsWith s [q] \<longleftrightarrow> s \<noteq> [] \<and> hd s = q"
  by (cases s) (auto simp: startsWith_def)

lemma endsWith_char: "endsWith s [q] \<longleftrightarrow> s \<noteq> [] \<and> last s = q"
proof (cases s rule: rev_cases)
  case Nil
  then show ?thesis by (simp add: endsWith_def)
next
  case (snoc ys y)
  then show ?thesis by (auto simp: endsWith_def)
qed

lemma slice_inner: "slice s 1 (- 1) = butlast (tl s)"
proof (cases s)
  case Nil
  then show ?thesis by (simp add: slice_def)
next
  case (Cons c cs)
  have "nat (max (int (length cs)) 0 - 1) = length cs - 1" by simp
  then show ?thesis using Cons by (simp add: slice_def Let_def butlast_conv_take)
qed

lemma takeWhile_digits_then:
  assumes "list_all isDigit ds" "rest = [] \<or> \<not> isDigit (hd rest)"
  shows "takeWhile isDigit (ds @ rest) = ds" "dropWhile isDigit (ds @ rest) = rest"
proof -
  have all: "\<forall>x \<in> set ds. isDigit x" using assms(1) by (simp add: list_all_iff)
  have "takeWhile isDigit rest = []" "dropWhile isDigit rest = rest"
    using assms(2) by (cases rest; simp)+
  then show "takeWhile isDigit (ds @ rest) = ds" "dropWhile isDigit (ds @ rest) = rest"
    using all by (simp_all add: takeWhile_append2 dropWhile_append2)
qed

lemma not_digit_minus: "\<not> isDigit (CHR ''-'')" and not_digit_dot: "\<not> isDigit (CHR ''.'')"
  by (simp_all add: isDigit_def)

text \<open>
  The matcher accepts exactly the texts of the pattern: an optional minus sign, one or
  more digits, and optionally a dot followed by one or more digits.
\<close>

lemma numericPattern_iff:
  "numericPattern raw \<longleftrightarrow>
     (\<exists>sign whole frac.
        raw = sign @ whole @ frac \<and> (sign = [] \<or> sign = ''-'') \<and>
        whole \<noteq> [] \<and> list_all isDigit whole \<and>
        (frac = [] \<or> (\<exists>ds. frac = CHR ''.'' # ds \<and> ds \<noteq> [] \<and> list_all isDigit ds)))"
  (is "?lhs \<longleftrightarrow> ?rhs")
proof
  assume L: ?lhs
  define body where "body = (case raw of c # cs \<Rightarrow> if c = CHR ''-'' then cs else raw | [] \<Rightarrow> raw)"
  define sign where "sign = (if raw \<noteq> [] \<and> hd raw = CHR ''-'' then ''-'' else [])"
  have raw: "raw = sign @ body"
    by (cases raw) (auto simp: body_def sign_def)
  have split: "body = takeWhile isDigit body @ dropWhile isDigit body" by simp
  from L have w: "takeWhile isDigit body \<noteq> []"
    and r: "(case dropWhile isDigit body of [] \<Rightarrow> True
             | d # frac \<Rightarrow> d = CHR ''.'' \<and> frac \<noteq> [] \<and> list_all isDigit frac)"
    by (simp_all add: numericPattern_def body_def Let_def)
  have digits: "list_all isDigit (takeWhile isDigit body)"
    by (simp add: list_all_iff) (meson set_takeWhileD)
  have frac: "dropWhile isDigit body = [] \<or>
        (\<exists>ds. dropWhile isDigit body = CHR ''.'' # ds \<and> ds \<noteq> [] \<and> list_all isDigit ds)"
    using r by (cases "dropWhile isDigit body") auto
  show ?rhs
    apply (rule exI [of _ sign], rule exI [of _ "takeWhile isDigit body"],
           rule exI [of _ "dropWhile isDigit body"])
    using raw w digits frac by (auto simp: sign_def)
next
  assume ?rhs
  then obtain sign whole frac where
    raw: "raw = sign @ whole @ frac" and sign: "sign = [] \<or> sign = ''-''" and
    whole: "whole \<noteq> []" "list_all isDigit whole" and
    frac: "frac = [] \<or> (\<exists>ds. frac = CHR ''.'' # ds \<and> ds \<noteq> [] \<and> list_all isDigit ds)"
    by blast
  have hd: "isDigit (hd whole)" using whole by (cases whole) simp_all
  then have "hd whole \<noteq> CHR ''-''" using not_digit_minus by auto
  then have body: "(case raw of c # cs \<Rightarrow> if c = CHR ''-'' then cs else raw | [] \<Rightarrow> raw) = whole @ frac"
    using raw sign whole by (cases whole) auto
  have stop: "frac = [] \<or> \<not> isDigit (hd frac)"
    using frac not_digit_dot by auto
  show ?lhs
    using takeWhile_digits_then [OF whole(2) stop] whole frac
    by (auto simp: numericPattern_def body Let_def)
qed

text \<open>
  Claim C5, as stated: when the numeric parse yields not-a-number the decoder falls
  back to the raw string. It does not when the text is wrapped in quotes: with the type
  tag \<open>number\<close> the text \<open>"5"\<close> (quotes included) is not a number, and the decoder
  goes on to the quote rule and returns \<open>5\<close> without them.
\<close>

theorem decoder_nan_fallback_counterexample:
  "decimalNumber [CHR 0x22, CHR ''5'', CHR 0x22] = None \<and>
   parsePrimitiveValue decimalNumber [CHR 0x22, CHR ''5'', CHR 0x22] (Some ''number'') = Str ''5'' \<and>
   parsePrimitiveValue decimalNumber [CHR 0x22, CHR ''5'', CHR 0x22] (Some ''number'')
     \<noteq> Str [CHR 0x22, CHR ''5'', CHR 0x22]"
  by code_simp

text \<open>
  Claim C5, amended: the decoder is total and applies its rules in order:
  \<open>undefined\<close>, \<open>null\<close>, \<open>true\<close> and \<open>false\<close> give the corresponding scalar; otherwise a
  number when the type tag is \<open>number\<close>, or there is no type tag and the text matches
  the signed-integer-or-decimal pattern, and the parse is a number; otherwise, also
  when the parse yields not-a-number, the text without its first and last character
  when it starts and ends with a double quote, or starts and ends with a single quote,
  and else the raw text.
\<close>

theorem decoder_rules:
  "(raw = ''undefined'' \<longrightarrow> parsePrimitiveValue toNum raw ty = Undefined) \<and>
   (raw = ''null'' \<longrightarrow> parsePrimitiveValue toNum raw ty = Null) \<and>
   (raw = ''true'' \<longrightarrow> parsePrimitiveValue toNum raw ty = Bool True) \<and>
   (raw = ''false'' \<longrightarrow> parsePrimitiveValue toNum raw ty = Bool False) \<and>
   (raw \<notin> {''undefined'', ''null'', ''true'', ''false''} \<longrightarrow>
      (\<forall>n. (ty = Some ''number'' \<or> (ty = None \<and> numericPattern raw)) \<and> toNum raw = Some n \<longrightarrow>
           parsePrimitiveValue toNum raw ty = Num n) \<and>
      (\<not> (ty = Some ''number'' \<or> (ty = None \<and> numericPattern raw)) \<or> toNum raw = None \<longrightarrow>
           parsePrimitiveValue toNum raw ty =
             (if raw \<noteq> [] \<and> (hd raw = CHR 0x22 \<and> last raw = CHR 0x22 \<or>
                             hd raw = CHR 0x27 \<and> last raw = CHR 0x27)
              then Str (butlast (tl raw)) else Str raw)))"
  by (auto simp: parsePrimitiveValue_def startsWith_char endsWith_char slice_inner)

theorem decoder_rules_witness:
  "parsePrimitiveValue decimalNumber ''undefined'' None = Undefined \<and>
   parsePrimitiveValue decimalNumber ''null'' None = Null \<and>
   parsePrimitiveValue decimalNumber ''true'' None = Bool True \<and>
   parsePrimitiveValue decimalNumber ''false'' None = Bool False \<and>
   ''-12'' \<notin> {''undefined'', ''null'', ''true'', ''false''} \<and>
   numericPattern ''-12'' \<and> decimalNumber ''-12'' = Some (- 12) \<and>
   parsePrimitiveValue decimalNumber ''-12'' None = Num (- 12) \<and>
   ''NaN'' \<notin> {''undefined'', ''null'', ''true'', ''false''} \<and>
   decimalNumber ''NaN'' = None \<and>
   parsePrimitiveValue decimalNumber ''NaN'' (Some ''number'') = Str ''NaN'' \<and>
   parsePrimitiveValue decimalNumber [CHR 0x27, CHR ''a'', CHR 0x27] (Some ''string'') = Str ''a''"
proof -
  have a: "numericPattern ''-12''" "decimalNumber ''-12'' = Some (- 12)"
          "decimalNumber ''NaN'' = None"
    by code_simp+
  have b: "''-12'' \<notin> {''undefined'', ''null'', ''true'', ''false''}"
          "''NaN'' \<notin> {''undefined'', ''null'', ''true'', ''false''}"
          "[CHR 0x27, CHR ''a'', CHR 0x27] \<notin> {''undefined'', ''null'', ''true'', ''false''}"
    by simp_all
  from decoder_rules [where raw = "''undefined''" and toNum = decimalNumber and ty = None]
       decoder_rules [where raw = "''null''" and toNum = decimalNumber and ty = None]
       decoder_rules [where raw = "''true''" and toNum = decimalNumber and ty = None]
       decoder_rules [where raw = "''false''" and toNum = decimalNumber and ty = None]
       decoder_rules [where raw = "''-12''" and toNum = decimalNumber and ty = None]
       decoder_rules [where raw = "''NaN''" and toNum = decimalNumber and ty = "Some ''number''"]
       decoder_rules [where raw = "[CHR 0x27, CHR ''a'', CHR 0x27]" and toNum = decimalNumber
                        and ty = "Some ''string''"]
       a b
  show ?thesis by simp
qed

section \<open>Properties of the bounded concurrency gate\<close>

lemma gateStep_inv:
  assumes "gateStep g e = Some g'"
    and "active (sem g) = int (length (holding g))"
    and "active (sem g) \<le> limit (sem g)"
    and "queue (sem g) \<noteq> [] \<longrightarrow> active (sem g) = limit (sem g)"
  shows "active (sem g') = int (length (holding g')) \<and>
         active (sem g') \<le> limit (sem g') \<and>
         (queue (sem g') \<noteq> [] \<longrightarrow> active (sem g') = limit (sem g')) \<and>
         limit (sem g') = limit (sem g)"
proof (cases e)
  case (Run t)
  then show ?thesis using assms
    by (auto simp: acquire_def split: if_splits)
next
  case (Settle t ok)
  with assms(1) have mem: "t \<in> set (holding g)"
    by (simp split: if_splits)
  then obtain m where m: "length (holding g) = Suc m"
    by (cases "holding g") auto
  have len: "int (length (remove1 t (holding g))) = int (length (holding g)) - 1"
    using mem m by (simp add: length_remove1)
  show ?thesis
  proof (cases "queue (sem g)")
    case Nil
    then show ?thesis using Settle assms mem len
      by (auto simp: release_def Let_def)
  next
    case (Cons n rest)
    then show ?thesis using Settle assms mem len
      by (auto simp: release_def Let_def)
  qed
qed

lemma gateRun_inv:
  assumes "gateRun g es = Some g'"
    and "active (sem g) = int (length (holding g))"
    and "active (sem g) \<le> limit (sem g)"
    and "queue (sem g) \<noteq> [] \<longrightarrow> active (sem g) = limit (sem g)"
  shows "active (sem g') = int (length (holding g')) \<and>
         active (sem g') \<le> limit (sem g') \<and>
         (queue (sem g') \<noteq> [] \<longrightarrow> active (sem g') = limit (sem g')) \<and>
         limit (sem g') = limit (sem g)"
  using assms
proof (induction es arbitrary: g)
  case Nil
  then show ?case by simp
next
  case (Cons e es)
  from Cons.prems(1) obtain g1 where step: "gateStep g e = Some g1" and run: "gateRun g1 es = Some g'"
    by (auto split: option.splits)
  from gateStep_inv [OF step Cons.prems(2-4)]
  have a: "active (sem g1) = int (length (holding g1))"
    and b: "active (sem g1) \<le> limit (sem g1)"
    and c: "queue (sem g1) \<noteq> [] \<longrightarrow> active (sem g1) = limit (sem g1)"
    and d: "limit (sem g1) = limit (sem g)"
    by blast+
  from Cons.IH [OF run a b c] show ?case unfolding d .
qed

lemma gateRun_append:
  "gateRun g (es @ [e]) = (case gateRun g es of None \<Rightarrow> None | Some g' \<Rightarrow> gateStep g' e)"
  by (induction es arbitrary: g) (auto split: option.splits)

text \<open>
  After \<open>run\<close> calls alone, the first \<open>N\<close> callers hold the slots and the others wait
  in the order in which they called.
\<close>

lemma gateRun_calls:
  assumes "0 \<le> N"
  shows "gateRun (newGate N) (map Run tasks) =
     Some \<lparr>sem = \<lparr>active = int (min (nat N) (length tasks)), queue = drop (nat N) tasks, limit = N\<rparr>,
           holding = take (nat N) tasks\<rparr>"
proof (induction tasks rule: rev_induct)
  case Nil
  then show ?case by (simp add: newGate_def newSemaphore_def)
next
  case (snoc t tasks)
  show ?case
  proof (cases "length tasks < nat N")
    case True
    then have "int (length tasks) < N" by linarith
    with True show ?thesis using snoc
      by (simp add: gateRun_append acquire_def)
  next
    case False
    then have "\<not> int (length tasks) < N" by linarith
    with False show ?thesis using snoc
      by (simp add: gateRun_append acquire_def)
  qed
qed

text \<open>
  Claim C2: after any number of \<open>run\<close> calls on a gate with limit \<open>N\<close> the first \<open>N\<close>
  callers hold the slots and the others wait in the order of their calls; whatever the
  order in which \<open>run\<close> calls arrive and admitted tasks settle
  on a gate with limit \<open>N\<close>, never more than \<open>N\<close> tasks hold a slot (every instant is
  the end of such a sequence of events), and \<open>active\<close> counts exactly those tasks; a task
  that settles, by fulfilment or by rejection, releases its slot; the release hands the
  slot to the oldest waiter when there is one, leaving \<open>active\<close> as it was, and
  otherwise lowers \<open>active\<close> by one.
\<close>

theorem gate_bound_fifo:
  assumes "0 \<le> N" and "gateRun (newGate N) events = Some g"
  shows "gateRun (newGate N) (map Run tasks) =
           Some \<lparr>sem = \<lparr>active = int (min (nat N) (length tasks)), queue = drop (nat N) tasks,
                         limit = N\<rparr>,
                 holding = take (nat N) tasks\<rparr> \<and>
         int (length (holding g)) \<le> N \<and> active (sem g) = int (length (holding g)) \<and>
         (\<forall>t ok. t \<in> set (holding g) \<longrightarrow>
            (case queue (sem g) of
               [] \<Rightarrow> gateStep g (Settle t ok) =
                       Some \<lparr>sem = (sem g)\<lparr>active := active (sem g) - 1\<rparr>,
                             holding = remove1 t (holding g)\<rparr>
             | oldest # waiting \<Rightarrow> gateStep g (Settle t ok) =
                       Some \<lparr>sem = (sem g)\<lparr>queue := waiting\<rparr>,
                             holding = remove1 t (holding g) @ [oldest]\<rparr>)) \<and>
         (\<forall>t. gateStep g (Run t) =
            Some (if int (length (holding g)) < N
                  then \<lparr>sem = (sem g)\<lparr>active := active (sem g) + 1\<rparr>, holding = holding g @ [t]\<rparr>
                  else \<lparr>sem = (sem g)\<lparr>queue := queue (sem g) @ [t]\<rparr>, holding = holding g\<rparr>))"
proof -
  have inv: "active (sem g) = int (length (holding g)) \<and> active (sem g) \<le> limit (sem g) \<and>
        (queue (sem g) \<noteq> [] \<longrightarrow> active (sem g) = limit (sem g)) \<and>
        limit (sem g) = limit (sem (newGate N :: 'a gate))"
    by (rule gateRun_inv [OF assms(2)]) (use assms(1) in \<open>simp_all add: newGate_def newSemaphore_def\<close>)
  have lim: "limit (sem g) = N"
    using inv by (simp add: newGate_def newSemaphore_def)
  have settle: "(case queue (sem g) of
               [] \<Rightarrow> gateStep g (Settle t ok) =
                       Some \<lparr>sem = (sem g)\<lparr>active := active (sem g) - 1\<rparr>,
                             holding = remove1 t (holding g)\<rparr>
             | oldest # waiting \<Rightarrow> gateStep g (Settle t ok) =
                       Some \<lparr>sem = (sem g)\<lparr>queue := waiting\<rparr>,
                             holding = remove1 t (holding g) @ [oldest]\<rparr>)"
    if "t \<in> set (holding g)" for t ok
    using that by (cases "queue (sem g)") (simp_all add: release_def Let_def)
  have run: "gateStep g (Run t) =
            Some (if int (length (holding g)) < N
                  then \<lparr>sem = (sem g)\<lparr>active := active (sem g) + 1\<rparr>, holding = holding g @ [t]\<rparr>
                  else \<lparr>sem = (sem g)\<lparr>queue := queue (sem g) @ [t]\<rparr>, holding = holding g\<rparr>)" for t
    using inv lim by (simp add: acquire_def)
  show ?thesis using inv lim settle run gateRun_calls [OF assms(1), of tasks] by auto
qed

theorem gate_bound_fifo_witness:
  "gateRun (newGate 2) [Run ''a'', Run ''b'', Run ''c'', Run ''d''] =
     Some \<lparr>sem = \<lparr>active = 2, queue = [''c'', ''d''], limit = 2\<rparr>, holding = [''a'', ''b'']\<rparr> \<and>
   gateStep \<lparr>sem = \<lparr>active = 2, queue = [''c'', ''d''], limit = 2\<rparr>, holding = [''a'', ''b'']\<rparr>
     (Settle ''b'' False) =
     Some \<lparr>sem = \<lparr>active = 2, queue = [''d''], limit = 2\<rparr>, holding = [''a'', ''c'']\<rparr> \<and>
   gateRun (newGate 2) [Run ''a'', Run ''b'', Run ''c'', Run ''d'', Settle ''b'' False, Settle ''a'' True] =
     Some \<lparr>sem = \<lparr>active = 2, queue = [], limit = 2\<rparr>, holding = [''c'', ''d'']\<rparr> \<and>
   gateStep \<lparr>sem = \<lparr>active = 2, queue = [], limit = 2\<rparr>, holding = [''c'', ''d'']\<rparr> (Settle ''d'' True) =
     Some \<lparr>sem = \<lparr>active = 1, queue = [], limit = 2\<rparr>, holding = [''c'']\<rparr> \<and>
   int (length [''a'', ''b'']) \<le> 2"
proof -
  have r1: "gateRun (newGate 2) [Run ''a'', Run ''b'', Run ''c'', Run ''d''] =
     Some \<lparr>sem = \<lparr>active = 2, queue = [''c'', ''d''], limit = 2\<rparr>, holding = [''a'', ''b'']\<rparr>"
    by (simp add: newGate_def newSemaphore_def acquire_def)
  have r2: "gateRun (newGate 2) [Run ''a'', Run ''b'', Run ''c'', Run ''d'', Settle ''b'' False,
                                 Settle ''a'' True] =
     Some \<lparr>sem = \<lparr>active = 2, queue = [], limit = 2\<rparr>, holding = [''c'', ''d'']\<rparr>"
    by (simp add: newGate_def newSemaphore_def acquire_def release_def)
  from gate_bound_fifo [OF _ r1, where tasks = "[''a'', ''b'', ''c'', ''d'']"]
  have s1: "gateStep \<lparr>sem = \<lparr>active = 2, queue = [''c'', ''d''], limit = 2\<rparr>, holding = [''a'', ''b'']\<rparr>
          (Settle ''b'' False) =
        Some \<lparr>sem = \<lparr>active = 2, queue = [''d''], limit = 2\<rparr>, holding = [''a'', ''c'']\<rparr>"
    by simp
  from gate_bound_fifo [OF _ r2, where tasks = "[''a'', ''b'', ''c'', ''d'']"]
  have s2: "gateStep \<lparr>sem = \<lparr>active = 2, queue = [], limit = 2\<rparr>, holding = [''c'', ''d'']\<rparr>
          (Settle ''d'' True) =
        Some \<lparr>sem = \<lparr>active = 1, queue = [], limit = 2\<rparr>, holding = [''c'']\<rparr>"
    by simp
  from s1 s2 r1 r2 show ?thesis by simp
qed

section \<open>Properties of the graph walker\<close>

lemma call_fields [simp]:
  "tokenReads (call e s) = tokenReads s" "counter (call e s) = counter s"
  "files (call e s) = files s" "effects (call e s) = effects s @ [e]"
  by (simp_all add: call_def)

lemma progressReport_fields [simp]:
  "tokenReads (progressReport m s) = tokenReads s" "files (progressReport m s) = files s"
  "effects (progressReport m s) = effects s"
  by (simp_all add: progressReport_def)

lemma serializeVariable_cancelled:
  "cancelled w (tokenReads s) \<Longrightarrow>
   serializeVariable w v depth maxDepth s = (Inr (Str ''[cancelled]''), s\<lparr>tokenReads := tokenReads s + 1\<rparr>)"
  by simp

lemma serializeVariable_unresolved:
  "\<not> cancelled w (tokenReads s) \<Longrightarrow> variablesReference v \<noteq> 0 \<Longrightarrow> maxDepth \<le> depth \<Longrightarrow>
   serializeVariable w v depth maxDepth s =
     (Inr (Str (''[unresolved: '' @ (case v_type v of None \<Rightarrow> ''object'' | Some t \<Rightarrow> t) @ '']'')),
      s\<lparr>tokenReads := tokenReads s + 1\<rparr>)"
  by simp

lemma serializeVariable_primitive:
  "\<not> cancelled w (tokenReads s) \<Longrightarrow> variablesReference v = 0 \<Longrightarrow>
   serializeVariable w v depth maxDepth s =
     (Inr (parsePrimitiveValue (toNumber w) (v_value v) (v_type v)), s\<lparr>tokenReads := tokenReads s + 1\<rparr>)"
  by simp

lemma serializeVariable_rejected:
  "\<not> cancelled w (tokenReads s) \<Longrightarrow> variablesReference v \<noteq> 0 \<Longrightarrow> depth < maxDepth \<Longrightarrow>
   variablesRequest w (variablesReference v) = Rejected e \<Longrightarrow>
   serializeVariable w v depth maxDepth s =
     (Inl (Rejection e),
      call (CustomRequest (Variables (variablesReference v))) (s\<lparr>tokenReads := tokenReads s + 1\<rparr>))"
  by (simp add: Let_def)

lemma serializeVariable_expand:
  assumes "\<not> cancelled w (tokenReads s)" "variablesReference v \<noteq> 0" "depth < maxDepth"
    and "variablesRequest w (variablesReference v) = Resolved response"
  shows "serializeVariable w v depth maxDepth s =
     (let children = (case response of None \<Rightarrow> [] | Some vs \<Rightarrow> vs);
          relevant = filter (\<lambda>c. \<not> startsWith (v_name c) ''[['') children;
          s2 = call (CustomRequest (Variables (variablesReference v))) (s\<lparr>tokenReads := tokenReads s + 1\<rparr>)
      in if children \<noteq> [] \<and> list_all (\<lambda>c. digitsPattern (v_name c)) children then
           (case serializeEach w children (depth + 1) maxDepth
                   (s2\<lparr>counter := addItems (floorPct w) (length children) (counter s2)\<rparr>) of
              (Inl e, s3) \<Rightarrow> (Inl e, s3)
            | (Inr results, s3) \<Rightarrow> (Inr (Arr results), s3))
         else
           (case serializeEach w relevant (depth + 1) maxDepth
                   (s2\<lparr>counter := addItems (floorPct w) (length relevant) (counter s2)\<rparr>) of
              (Inl e, s3) \<Rightarrow> (Inl e, s3)
            | (Inr results, s3) \<Rightarrow>
                (Inr (Obj (fromEntries (zip (map v_name relevant) results))), s3)))"
  using assms by (simp add: Let_def)

declare serializeVariable.simps [simp del]


text \<open>When no \<open>variables\<close> request is rejected, the walk produces a value.\<close>

lemma walk_returns:
  assumes "\<forall>ref e. variablesRequest w ref \<noteq> Rejected e"
  shows "\<exists>r. fst (serializeVariable w v depth maxDepth s) = Inr r"
    and "\<exists>rs. fst (serializeEach w vs depth maxDepth s) = Inr rs"
  using assms
proof (induction w v depth maxDepth s and w vs depth maxDepth s
       rule: serializeVariable_serializeEach.induct)
  case (1 w v depth maxDepth s)
  show ?case
  proof (cases "cancelled w (tokenReads s)")
    case True
    then show ?thesis by (simp add: serializeVariable_cancelled)
  next
    case nc: False
    show ?thesis
    proof (cases "variablesReference v = 0 \<or> maxDepth \<le> depth")
      case True
      then show ?thesis using nc
        by (cases "variablesReference v = 0")
           (auto simp: serializeVariable_primitive serializeVariable_unresolved)
    next
      case False
      then have ref: "variablesReference v \<noteq> 0" and dep: "depth < maxDepth" by auto
      show ?thesis
      proof (cases "variablesRequest w (variablesReference v)")
        case (Rejected e)
        then show ?thesis using "1.prems" by simp
      next
        case (Resolved response)
        note ih1 = "1.IH"(1) [OF refl nc False refl Resolved refl refl _ "1.prems"]
        note ih2 = "1.IH"(2) [OF refl nc False refl Resolved refl refl _ refl "1.prems"]
        show ?thesis
        proof (cases "(case response of None \<Rightarrow> [] | Some vs \<Rightarrow> vs) \<noteq> [] \<and>
                list_all (\<lambda>c. digitsPattern (v_name c)) (case response of None \<Rightarrow> [] | Some vs \<Rightarrow> vs)")
          case True
          with ih1 show ?thesis
            unfolding serializeVariable_expand [OF nc ref dep Resolved] Let_def
            by (auto split: prod.splits sum.splits)
        next
          case False
          with ih2 show ?thesis
            unfolding serializeVariable_expand [OF nc ref dep Resolved] Let_def
            by (auto split: prod.splits sum.splits)
        qed
      qed
    qed
  qed
next
  case (2 w depth maxDepth s)
  then show ?case by simp
next
  case (3 w child rest depth maxDepth s)
  show ?case
  proof (cases "serializeVariable w child depth maxDepth s")
    case (Pair r s1)
    from "3.IH"(1) [OF "3.prems"] Pair obtain b where Inr: "r = Inr b" by auto
    from "3.IH"(2) [OF Pair [symmetric] Inr "3.prems"] Pair Inr
    show ?thesis by (auto split: prod.splits sum.splits)
  qed
qed

text \<open>
  The results of \<open>serializeEach\<close> are, one for one and in the order of the children,
  results of \<open>serializeVariable\<close> on them.
\<close>

lemma serializeEach_results:
  "serializeEach w vs depth maxDepth s = (Inr rs, s') \<Longrightarrow>
   list_all2 (\<lambda>c r. \<exists>si so. serializeVariable w c depth maxDepth si = (Inr r, so)) vs rs"
proof (induction vs arbitrary: s rs s')
  case Nil
  then show ?case by simp
next
  case (Cons child rest)
  obtain x s1 where p: "serializeVariable w child depth maxDepth s = (x, s1)"
    by (cases "serializeVariable w child depth maxDepth s")
  with Cons.prems obtain r where x: "x = Inr r" by (cases x) simp_all
  obtain y s2 where q: "serializeEach w rest depth maxDepth
             (s1\<lparr>counter := completeItem (floorPct w) (counter s1)\<rparr>) = (y, s2)"
    by (cases "serializeEach w rest depth maxDepth
             (s1\<lparr>counter := completeItem (floorPct w) (counter s1)\<rparr>)")
  with Cons.prems p x obtain rs' where y: "y = Inr rs'" by (cases y) simp_all
  from Cons.prems p x q y have rs: "rs = r # rs'" and s2: "s2 = s'" by simp_all
  from Cons.IH [OF q [unfolded y s2]] have
    "list_all2 (\<lambda>c r. \<exists>si so. serializeVariable w c depth maxDepth si = (Inr r, so)) rest rs'" .
  moreover have "\<exists>si so. serializeVariable w child depth maxDepth si = (Inr r, so)"
    using p x by blast
  ultimately show ?case unfolding rs by simp
qed

lemma setEntry_lookup: "map_of (setEntry k v obj) k' = (if k' = k then Some v else map_of obj k')"
  by (induction obj) auto

lemma foldl_setEntry_lookup:
  "map_of (foldl (\<lambda>obj (k, v). setEntry k v obj) acc es) k =
     (case map_of (rev es) k of Some v \<Rightarrow> Some v | None \<Rightarrow> map_of acc k)"
proof (induction es arbitrary: acc)
  case Nil
  then show ?case by simp
next
  case (Cons e es)
  obtain k' v' where e: "e = (k', v')" by (cases e)
  show ?case
    by (cases "map_of (rev es) k") (simp_all add: Cons.IH e setEntry_lookup map_add_def)
qed

text \<open>The object built from a list of entries maps each key to its last entry.\<close>

lemma fromEntries_lookup: "map_of (fromEntries es) k = map_of (rev es) k"
  by (cases "map_of (rev es) k") (simp_all add: fromEntries_def foldl_setEntry_lookup)

lemma digitsPattern_iff: "digitsPattern nm \<longleftrightarrow> nm \<noteq> [] \<and> set nm \<subseteq> set ''0123456789''"
  unfolding digitsPattern_def list_all_iff isDigit_def by blast

lemma sentinelDepths_chainResult: "sentinelDepths (chainResult n :: 'n jsval) = [n]"
  by (induction n) (simp_all add: startsWith_def)

lemma next_is_a_name:
  "\<not> digitsPattern ''next''" "\<not> startsWith ''next'' ''[[''"
  by (simp_all add: digitsPattern_def isDigit_def startsWith_def)

lemma chain_walk:
  assumes nc: "\<forall>k. \<not> cancelled w k" and req: "variablesRequest w = chainVariables D" and MD: "M < D"
  shows "0 \<le> d \<Longrightarrow> d \<le> M \<Longrightarrow> variablesReference v = d + 1 \<Longrightarrow> v_type v = Some ''Object'' \<Longrightarrow>
         \<exists>s'. serializeVariable w v d M s = (Inr (chainResult (nat (M - d))), s') \<and>
              effects s' = effects s @ map (\<lambda>k. CustomRequest (Variables k)) [d + 1..M]"
proof (induction "nat (M - d)" arbitrary: d v s)
  case 0
  then have "M \<le> d" by simp
  with 0 nc show ?case
    by (simp add: serializeVariable_unresolved)
next
  case (Suc n)
  then have dM: "d < M" by linarith
  let ?child = "\<lparr>v_name = ''next'', v_value = ''Object'', v_type = Some ''Object'',
                  variablesReference = d + 1 + 1\<rparr>"
  let ?s2 = "call (CustomRequest (Variables (variablesReference v))) (s\<lparr>tokenReads := tokenReads s + 1\<rparr>)"
  let ?s3 = "?s2\<lparr>counter := addItems (floorPct w) (length [?child]) (counter ?s2)\<rparr>"
  have resp: "variablesRequest w (variablesReference v) = Resolved (Some [?child])"
    using Suc.prems dM MD by (simp add: req chainVariables_def)
  have n: "n = nat (M - (d + 1))" using Suc.hyps(2) by linarith
  from Suc.hyps(1) [OF n, of ?child ?s3] Suc.prems dM
  obtain s4 where
    sub: "serializeVariable w ?child (d + 1) M ?s3 = (Inr (chainResult n), s4)" and
    eff: "effects s4 = effects ?s3 @ map (\<lambda>k. CustomRequest (Variables k)) [d + 1 + 1..M]"
    using n by auto
  have ref: "variablesReference v \<noteq> 0" using Suc.prems by simp
  have "serializeVariable w v d M s =
          (Inr (Obj (fromEntries [(''next'', chainResult n)])),
           s4\<lparr>counter := completeItem (floorPct w) (counter s4)\<rparr>)"
    unfolding serializeVariable_expand [OF nc [rule_format] ref dM resp]
    using sub by (simp add: Let_def next_is_a_name)
  moreover have "chainResult (nat (M - d)) = (Obj (fromEntries [(''next'', chainResult n)]) :: 'a jsval)"
  proof -
    have "nat (M - d) = Suc n" using Suc.hyps(2) by simp
    then show ?thesis by (simp add: fromEntries_def)
  qed
  moreover have "effects (s4\<lparr>counter := completeItem (floorPct w) (counter s4)\<rparr>) =
        effects s @ map (\<lambda>k. CustomRequest (Variables k)) [d + 1..M]"
  proof -
    have "[d + 1..M] = (d + 1) # [d + 1 + 1..M]"
      using dM by (simp add: upto_rec1)
    then show ?thesis using eff Suc.prems by simp
  qed
  ultimately show ?case by simp
qed

text \<open>
  A walk during which no cancellation is seen and that produces a value cuts the graph
  at the depth bound: its value has the shape \<open>cutAtDepth\<close> describes.
\<close>

lemma map_of_related:
  "list_all2 (\<lambda>a b. fst a = fst b \<and> P (snd a) (snd b)) es fs \<Longrightarrow>
   rel_option P (map_of es k) (map_of fs k)"
  by (induction rule: list_all2_induct) auto

lemma zip_related:
  "list_all2 P xs ys \<Longrightarrow>
   list_all2 (\<lambda>a b. fst a = fst b \<and> P (snd a) (snd b)) (zip names xs) (zip names ys)"
proof (induction arbitrary: names rule: list_all2_induct)
  case Nil
  then show ?case by simp
next
  case (Cons x xs y ys)
  then show ?case by (cases names) simp_all
qed

lemma last_entry_related:
  assumes "list_all2 P xs ys"
  shows "rel_option P (map_of (rev (zip names xs)) k) (map_of (rev (zip names ys)) k)"
  by (rule map_of_related) (simp add: zip_related [OF assms])

lemma decoded_is_scalar: "valueAt (parsePrimitiveValue toNum raw ty) (st # p) = None"
  by (simp add: parsePrimitiveValue_def split: option.splits)

lemma named_children: "map (\<lambda>c. (v_name c, c)) cs = zip (map v_name cs) cs"
  by (induction cs) simp_all


lemma cutValue_none [simp]: "cutValue w M d None x \<longleftrightarrow> x = None"
  by (simp add: cutValue_def)

lemma cutValue_beyond: "M < d \<Longrightarrow> cutValue w M d node None"
  by (simp add: cutValue_def split: option.splits)

lemma cut_primitive:
  assumes "variablesReference v = 0" "depth \<le> M"
  shows "cutAtDepth w M depth v (parsePrimitiveValue (toNumber w) (v_value v) (v_type v))"
  unfolding cutAtDepth_def
proof
  fix p
  show "cutValue w M (depth + int (length p)) (remoteAt w v p)
          (valueAt (parsePrimitiveValue (toNumber w) (v_value v) (v_type v)) p)"
  proof (cases p)
    case Nil
    then show ?thesis using assms by (simp add: cutValue_def)
  next
    case (Cons st q)
    then show ?thesis using assms by (cases st) (simp_all add: decoded_is_scalar)
  qed
qed

lemma cut_sentinel:
  assumes "variablesReference v \<noteq> 0"
  shows "cutAtDepth w M M v (Str (unresolvedText v))"
  unfolding cutAtDepth_def
proof
  fix p
  show "cutValue w M (M + int (length p)) (remoteAt w v p) (valueAt (Str (unresolvedText v)) p)"
  proof (cases p)
    case Nil
    then show ?thesis using assms by (simp add: cutValue_def)
  next
    case (Cons st q)
    then show ?thesis by (simp add: cutValue_beyond)
  qed
qed

lemma cutAtDepth_step:
  assumes "cutAtDepth w M (depth + 1) c x"
  shows "cutValue w M (depth + int (length (st # q))) (remoteAt w c q) (valueAt x q)"
proof -
  have "depth + 1 + int (length q) = depth + int (length (st # q))" by simp
  with assms [unfolded cutAtDepth_def, rule_format, of q] show ?thesis by simp
qed

lemma cut_array:
  assumes ref: "variablesReference v \<noteq> 0" and dep: "depth < M"
    and al: "arrayLike (fetchedChildren w v)"
    and each: "list_all2 (cutAtDepth w M (depth + 1)) (fetchedChildren w v) results"
  shows "cutAtDepth w M depth v (Arr results)"
  unfolding cutAtDepth_def
proof
  fix p
  have shown: "shownChildren w v = fetchedChildren w v"
    using ref al by (simp add: shownChildren_def)
  have len: "length results = length (fetchedChildren w v)"
    using each by (simp add: list_all2_lengthD)
  show "cutValue w M (depth + int (length p)) (remoteAt w v p) (valueAt (Arr results) p)"
  proof (cases p)
    case Nil
    then show ?thesis using ref dep by (simp add: cutValue_def)
  next
    case (Cons st q)
    show ?thesis
    proof (cases st)
      case (Index i)
      show ?thesis
      proof (cases "i < length (fetchedChildren w v)")
        case True
        from each True have "cutAtDepth w M (depth + 1) (fetchedChildren w v ! i) (results ! i)"
          by (simp add: list_all2_nthD)
        from cutAtDepth_step [OF this, of st q] show ?thesis
          unfolding Cons Index using True ref al shown len by simp
      next
        case False
        then show ?thesis unfolding Cons Index using shown len by simp
      qed
    next
      case (Key k)
      then show ?thesis unfolding Cons using al by simp
    qed
  qed
qed

lemma cut_object:
  assumes ref: "variablesReference v \<noteq> 0" and dep: "depth < M"
    and al: "\<not> arrayLike (fetchedChildren w v)"
    and each: "list_all2 (cutAtDepth w M (depth + 1)) (shownChildren w v) results"
  shows "cutAtDepth w M depth v (Obj (fromEntries (zip (map v_name (shownChildren w v)) results)))"
  unfolding cutAtDepth_def
proof
  fix p
  let ?r = "Obj (fromEntries (zip (map v_name (shownChildren w v)) results))"
  show "cutValue w M (depth + int (length p)) (remoteAt w v p) (valueAt ?r p)"
  proof (cases p)
    case Nil
    then show ?thesis using ref dep by (simp add: cutValue_def)
  next
    case (Cons st q)
    show ?thesis
    proof (cases st)
      case (Index i)
      then show ?thesis unfolding Cons using al by simp
    next
      case (Key k)
      have rel: "rel_option (cutAtDepth w M (depth + 1))
                   (map_of (rev (map (\<lambda>c. (v_name c, c)) (shownChildren w v))) k)
                   (map_of (rev (zip (map v_name (shownChildren w v)) results)) k)"
        unfolding named_children by (rule last_entry_related [OF each])
      show ?thesis
      proof (cases "map_of (rev (map (\<lambda>c. (v_name c, c)) (shownChildren w v))) k")
        case None
        with rel have "map_of (rev (zip (map v_name (shownChildren w v)) results)) k = None"
          by simp
        with None show ?thesis unfolding Cons Key using ref al
          by (simp add: fromEntries_lookup)
      next
        case (Some c)
        with rel obtain x where
          x: "map_of (rev (zip (map v_name (shownChildren w v)) results)) k = Some x"
          and cx: "cutAtDepth w M (depth + 1) c x"
          by (auto simp: option_rel_Some1)
        from cutAtDepth_step [OF cx, of st q] show ?thesis
          unfolding Cons Key using Some x ref al by (simp add: fromEntries_lookup)
      qed
    qed
  qed
qed

lemma walk_cut:
  assumes nc: "\<forall>k. \<not> cancelled w k"
  shows "depth \<le> M \<Longrightarrow> serializeVariable w v depth M s = (Inr r, s') \<Longrightarrow> cutAtDepth w M depth v r"
proof (induction "nat (M - depth)" arbitrary: v depth s r s')
  case 0
  then have eq: "depth = M" by simp
  from nc have n: "\<not> cancelled w (tokenReads s)" by simp
  show ?case
  proof (cases "variablesReference v = 0")
    case True
    from "0.prems"(2) show ?thesis
      unfolding serializeVariable_primitive [OF n True]
      using cut_primitive [OF True "0.prems"(1), of w] by auto
  next
    case False
    have ge: "M \<le> depth" using eq by simp
    from "0.prems"(2) show ?thesis
      unfolding serializeVariable_unresolved [OF n False ge]
      using cut_sentinel [OF False, of w M] eq by (auto simp: unresolvedText_def)
  qed
next
  case (Suc n)
  then have dep: "depth < M" and n': "n = nat (M - (depth + 1))" and le: "depth + 1 \<le> M" by auto
  from nc have n: "\<not> cancelled w (tokenReads s)" by simp
  show ?case
  proof (cases "variablesReference v = 0")
    case True
    from Suc.prems(2) show ?thesis
      unfolding serializeVariable_primitive [OF n True]
      using cut_primitive [OF True Suc.prems(1), of w] by auto
  next
    case ref: False
    show ?thesis
    proof (cases "variablesRequest w (variablesReference v)")
      case (Rejected e)
      with Suc.prems(2) show ?thesis
        unfolding serializeVariable_rejected [OF n ref dep Rejected] by simp
    next
      case (Resolved response)
      have fc: "fetchedChildren w v = (case response of None \<Rightarrow> [] | Some vs \<Rightarrow> vs)"
        by (simp add: fetchedChildren_def Resolved)
      have children:
        "\<And>cs rs si so. serializeEach w cs (depth + 1) M si = (Inr rs, so) \<Longrightarrow>
                       list_all2 (cutAtDepth w M (depth + 1)) cs rs"
      proof -
        fix cs rs si so
        assume "serializeEach w cs (depth + 1) M si = (Inr rs, so)"
        from serializeEach_results [OF this]
        show "list_all2 (cutAtDepth w M (depth + 1)) cs rs"
          by (rule list_all2_mono) (use Suc.hyps(1) [OF n' le] in blast)
      qed
      show ?thesis
      proof (cases "arrayLike (fetchedChildren w v)")
        case True
        then have t: "(case response of None \<Rightarrow> [] | Some vs \<Rightarrow> vs) \<noteq> [] \<and>
            list_all (\<lambda>c. digitsPattern (v_name c)) (case response of None \<Rightarrow> [] | Some vs \<Rightarrow> vs)"
          by (simp add: arrayLike_def fc)
        from Suc.prems(2) obtain rs so where
          e: "serializeEach w (fetchedChildren w v) (depth + 1) M so = (Inr rs, s')" and r: "r = Arr rs"
          unfolding serializeVariable_expand [OF n ref dep Resolved] Let_def fc [symmetric]
          using t [folded fc] by (auto split: prod.splits sum.splits)
        from cut_array [OF ref dep True children [OF e]] show ?thesis unfolding r .
      next
        case False
        then have t: "\<not> ((case response of None \<Rightarrow> [] | Some vs \<Rightarrow> vs) \<noteq> [] \<and>
            list_all (\<lambda>c. digitsPattern (v_name c)) (case response of None \<Rightarrow> [] | Some vs \<Rightarrow> vs))"
          by (simp add: arrayLike_def fc)
        have sc: "shownChildren w v =
                  filter (\<lambda>c. \<not> startsWith (v_name c) ''[['') (fetchedChildren w v)"
          using ref False by (simp add: shownChildren_def)
        from Suc.prems(2) obtain rs so where
          e: "serializeEach w (shownChildren w v) (depth + 1) M so = (Inr rs, s')"
          and r: "r = Obj (fromEntries (zip (map v_name (shownChildren w v)) rs))"
          unfolding serializeVariable_expand [OF n ref dep Resolved] Let_def fc [symmetric] sc
          using t [folded fc] by (auto split: prod.splits sum.splits)
        from cut_object [OF ref dep False children [OF e]] show ?thesis unfolding r .
      qed
    qed
  qed
qed

text \<open>
  Whatever the cancellation and the answers, the walk requests the children of nodes
  above the depth bound only.
\<close>

lemma requestAbove_self:
  "variablesReference v \<noteq> 0 \<Longrightarrow> depth < M \<Longrightarrow>
   requestAbove w M depth v (CustomRequest (Variables (variablesReference v)))"
  unfolding requestAbove_def by (rule exI [of _ 0]) simp

lemma requestAbove_child:
  assumes "c \<in> set (shownChildren w v)" "requestAbove w M (depth + 1) c e"
  shows "requestAbove w M depth v e"
proof -
  from assms(2) obtain k u where k: "depth + 1 + int k < M" "u \<in> set (nodesAtLevel w k c)"
    "variablesReference u \<noteq> 0" "e = CustomRequest (Variables (variablesReference u))"
    unfolding requestAbove_def by blast
  from k(1) have "depth + int (Suc k) < M" by simp
  moreover from k(2) assms(1) have "u \<in> set (nodesAtLevel w (Suc k) v)" by auto
  ultimately show ?thesis unfolding requestAbove_def using k(3,4) by blast
qed

lemma walk_requests:
  "\<exists>es. effects (snd (serializeVariable w v depth M s)) = effects s @ es \<and>
        list_all (requestAbove w M depth v) es"
  "\<exists>es. effects (snd (serializeEach w vs depth M s)) = effects s @ es \<and>
        list_all (\<lambda>e. \<exists>c \<in> set vs. requestAbove w M depth c e) es"
proof (induction w v depth M s and w vs depth M s rule: serializeVariable_serializeEach.induct)
  case (1 w v depth maxDepth s)
  show ?case
  proof (cases "cancelled w (tokenReads s)")
    case True
    then show ?thesis by (simp add: serializeVariable_cancelled)
  next
    case nc: False
    show ?thesis
    proof (cases "variablesReference v = 0 \<or> maxDepth \<le> depth")
      case True
      then show ?thesis using nc
        by (cases "variablesReference v = 0")
           (auto simp: serializeVariable_primitive serializeVariable_unresolved)
    next
      case False
      then have ref: "variablesReference v \<noteq> 0" and dep: "depth < maxDepth" by auto
      note self = requestAbove_self [OF ref dep, of w]
      show ?thesis
      proof (cases "variablesRequest w (variablesReference v)")
        case (Rejected e)
        show ?thesis unfolding serializeVariable_rejected [OF nc ref dep Rejected]
          using self by simp
      next
        case (Resolved response)
        note ih1 = "1.IH"(1) [OF refl nc False refl Resolved refl refl]
        note ih2 = "1.IH"(2) [OF refl nc False refl Resolved refl refl _ refl]
        have fc: "fetchedChildren w v = (case response of None \<Rightarrow> [] | Some vs \<Rightarrow> vs)"
          by (simp add: fetchedChildren_def Resolved)
        show ?thesis
        proof (cases "arrayLike (fetchedChildren w v)")
          case True
          then have t: "fetchedChildren w v \<noteq> [] \<and>
              list_all (\<lambda>c. digitsPattern (v_name c)) (fetchedChildren w v)"
            by (simp add: arrayLike_def)
          have sc: "shownChildren w v = fetchedChildren w v"
            using ref True by (simp add: shownChildren_def)
          from t have t0: "0 < length (fetchedChildren w v) \<and>
              list_all (\<lambda>c. digitsPattern (v_name c)) (fetchedChildren w v)"
            by simp
          from ih1 [folded fc, OF t0] obtain es where
            es: "effects (snd (serializeEach w (fetchedChildren w v) (depth + 1) maxDepth
                   ((call (CustomRequest (Variables (variablesReference v)))
                      (s\<lparr>tokenReads := tokenReads s + 1\<rparr>))
                    \<lparr>counter := addItems (floorPct w) (length (fetchedChildren w v))
                       (counter (call (CustomRequest (Variables (variablesReference v)))
                          (s\<lparr>tokenReads := tokenReads s + 1\<rparr>)))\<rparr>))) =
                 effects s @ CustomRequest (Variables (variablesReference v)) # es"
            and all: "list_all (\<lambda>e. \<exists>c \<in> set (fetchedChildren w v).
                         requestAbove w maxDepth (depth + 1) c e) es"
            by auto
          from all have "list_all (requestAbove w maxDepth depth v) es"
            unfolding list_all_iff sc [symmetric] by (blast intro: requestAbove_child)
          with self es t show ?thesis
            unfolding serializeVariable_expand [OF nc ref dep Resolved] Let_def fc [symmetric]
            by (auto split: prod.splits sum.splits)
        next
          case False
          then have t: "\<not> (fetchedChildren w v \<noteq> [] \<and>
              list_all (\<lambda>c. digitsPattern (v_name c)) (fetchedChildren w v))"
            by (simp add: arrayLike_def)
          have sc: "shownChildren w v =
                    filter (\<lambda>c. \<not> startsWith (v_name c) ''[['') (fetchedChildren w v)"
            using ref False by (simp add: shownChildren_def)
          from t have t0: "\<not> (0 < length (fetchedChildren w v) \<and>
              list_all (\<lambda>c. digitsPattern (v_name c)) (fetchedChildren w v))"
            by simp
          from ih2 [folded fc, OF t0, folded sc] obtain es where
            es: "effects (snd (serializeEach w (shownChildren w v) (depth + 1) maxDepth
                   ((call (CustomRequest (Variables (variablesReference v)))
                      (s\<lparr>tokenReads := tokenReads s + 1\<rparr>))
                    \<lparr>counter := addItems (floorPct w) (length (shownChildren w v))
                       (counter (call (CustomRequest (Variables (variablesReference v)))
                          (s\<lparr>tokenReads := tokenReads s + 1\<rparr>)))\<rparr>))) =
                 effects s @ CustomRequest (Variables (variablesReference v)) # es"
            and all: "list_all (\<lambda>e. \<exists>c \<in> set (shownChildren w v).
                         requestAbove w maxDepth (depth + 1) c e) es"
            by auto
          from all have "list_all (requestAbove w maxDepth depth v) es"
            unfolding list_all_iff by (blast intro: requestAbove_child)
          with self es t show ?thesis
            unfolding serializeVariable_expand [OF nc ref dep Resolved] Let_def fc [symmetric]
              sc [symmetric]
            by (auto split: prod.splits sum.splits)
        qed
      qed
    qed
  qed
next
  case (2 w depth maxDepth s)
  then show ?case by simp
next
  case (3 w child rest depth maxDepth s)
  obtain x s1 where p: "serializeVariable w child depth maxDepth s = (x, s1)"
    by (cases "serializeVariable w child depth maxDepth s")
  from "3.IH"(1) p obtain es where
    es: "effects s1 = effects s @ es" "list_all (requestAbove w maxDepth depth child) es"
    by auto
  show ?case
  proof (cases x)
    case (Inl e)
    with p es show ?thesis by (auto simp: list_all_iff)
  next
    case (Inr r)
    from "3.IH"(2) [OF p [symmetric] Inr] obtain fs where
      fs: "effects (snd (serializeEach w rest depth maxDepth
             (s1\<lparr>counter := completeItem (floorPct w) (counter s1)\<rparr>))) = effects s1 @ fs"
        "list_all (\<lambda>e. \<exists>c \<in> set rest. requestAbove w maxDepth depth c e) fs"
      by auto
    have "list_all (\<lambda>e. \<exists>c \<in> set (child # rest). requestAbove w maxDepth depth c e) (es @ fs)"
      using es(2) fs(2) by (auto simp: list_all_iff)
    with p Inr es(1) fs(1) show ?thesis
      by (auto split: prod.splits sum.splits)
  qed
qed

text \<open>
  Claim C1, as stated: a reference with a non-zero handle that reaches the walker with
  \<open>depth >= maxDepth\<close> yields the "unresolved" sentinel, and with depth counted from 0
  at the immediate children of the requested expression a composite nested deeper than
  \<open>M\<close> has the sentinel exactly at depth \<open>M\<close>. Neither holds. When cancellation has been
  requested the walker returns the "cancelled" sentinel first. And the walker is started
  with depth 0 on the requested expression itself: for a composite nested two levels
  deep and \<open>maxDepth = 1\<close> the sentinel is the value of an immediate child, which is
  depth 0 when counted from the children, not depth 1.
\<close>

theorem unresolved_sentinel_counterexample:
  "variablesReference (compositeVar ''x'' ''Object'' 1) \<noteq> 0 \<and>
   fst (serializeVariable alreadyCancelled (compositeVar ''x'' ''Object'' 1) 1 1 startState)
     = Inr (Str ''[cancelled]'') \<and>
   fst (serializeVariable (chainWorld 2) chainRoot 0 1 startState)
     = Inr (Obj [(''next'', Str ''[unresolved: Object]'')]) \<and>
   childSentinelDepths (Obj [(''next'', Str ''[unresolved: Object]'')] :: int jsval) = [0] \<and>
   sentinelDepths (Obj [(''next'', Str ''[unresolved: Object]'')] :: int jsval) = [1]"
  by code_simp

text \<open>
  Claim C1, amended: when cancellation has not been requested, a reference with a
  non-zero handle that reaches the walker with \<open>depth >= maxDepth\<close> yields the string
  \<open>[unresolved: <type>]\<close> (with \<open>object\<close> when there is no type tag), and the only change
  of the state is the reading of the token: no \<open>variables\<close> request is made for the node
  or below it. With depth counted from 0 at the requested expression itself, the walk of
  a chain nested to depth \<open>D\<close> with \<open>0 <= maxDepth = M < D\<close> has the sentinel at depth
  \<open>M\<close> and nowhere else, and has fetched the children of the nodes above depth \<open>M\<close> only.
  And for every graph: a walk that starts at a depth not below \<open>maxDepth\<close>, sees no
  cancellation and produces a value has, at every position, the sentinel where a node
  with a handle lies at depth \<open>maxDepth\<close>, a sequence or a mapping where one lies above
  it, the decoded value where a node without a handle lies at or above it, and nothing
  below depth \<open>maxDepth\<close> or where the graph has no node; it produces a value when no
  request is rejected; and every walk, cancelled or rejected or neither, requests the
  children of nodes with a handle above depth \<open>maxDepth\<close> only.
\<close>

theorem unresolved_at_depth_bound:
  "(variablesReference v \<noteq> 0 \<and> maxDepth \<le> depth \<and> \<not> cancelled w (tokenReads s) \<longrightarrow>
      serializeVariable w v depth maxDepth s =
        (Inr (Str (''[unresolved: '' @ (case v_type v of None \<Rightarrow> ''object'' | Some t \<Rightarrow> t) @ '']'')),
         s\<lparr>tokenReads := tokenReads s + 1\<rparr>)) \<and>
   (0 \<le> M \<and> M < D \<and> (\<forall>k. \<not> cancelled w k) \<and> variablesRequest w = chainVariables D \<longrightarrow>
      (\<exists>r s'. serializeVariable w chainRoot 0 M s = (Inr r, s') \<and>
              sentinelDepths r = [nat M] \<and>
              effects s' = effects s @ map (\<lambda>k. CustomRequest (Variables k)) [1..M])) \<and>
   (depth \<le> maxDepth \<and> (\<forall>k. \<not> cancelled w k) \<and>
    serializeVariable w v depth maxDepth s = (Inr r, s') \<longrightarrow>
      cutAtDepth w maxDepth depth v r) \<and>
   ((\<forall>ref e. variablesRequest w ref \<noteq> Rejected e) \<longrightarrow>
      (\<exists>r s'. serializeVariable w v depth maxDepth s = (Inr r, s'))) \<and>
   (\<exists>es. effects (snd (serializeVariable w v depth maxDepth s)) = effects s @ es \<and>
         list_all (requestAbove w maxDepth depth v) es)"
proof -
  have chain: "\<exists>r s'. serializeVariable w chainRoot 0 M s = (Inr r, s') \<and>
              sentinelDepths r = [nat M] \<and>
              effects s' = effects s @ map (\<lambda>k. CustomRequest (Variables k)) [1..M]"
    if "0 \<le> M" "M < D" "\<forall>k. \<not> cancelled w k" "variablesRequest w = chainVariables D"
  proof -
    from chain_walk [OF that(3) that(4) that(2), of 0 chainRoot s] that(1)
    obtain s' where "serializeVariable w chainRoot 0 M s = (Inr (chainResult (nat M)), s')"
      "effects s' = effects s @ map (\<lambda>k. CustomRequest (Variables k)) [1..M]"
      by (auto simp: chainRoot_def)
    then show ?thesis by (simp add: sentinelDepths_chainResult)
  qed
  have cut: "cutAtDepth w maxDepth depth v r"
    if "depth \<le> maxDepth" "\<forall>k. \<not> cancelled w k"
       "serializeVariable w v depth maxDepth s = (Inr r, s')"
    using walk_cut [OF that(2) that(1) that(3)] .
  have ret: "\<exists>r s'. serializeVariable w v depth maxDepth s = (Inr r, s')"
    if "\<forall>ref e. variablesRequest w ref \<noteq> Rejected e"
    using walk_returns(1) [OF that, of v depth maxDepth s]
    by (cases "serializeVariable w v depth maxDepth s") auto
  have first: "serializeVariable w v depth maxDepth s =
        (Inr (Str (''[unresolved: '' @ (case v_type v of None \<Rightarrow> ''object'' | Some t \<Rightarrow> t) @ '']'')),
         s\<lparr>tokenReads := tokenReads s + 1\<rparr>)"
    if "variablesReference v \<noteq> 0" "maxDepth \<le> depth" "\<not> cancelled w (tokenReads s)"
    using serializeVariable_unresolved [OF that(3) that(1) that(2)] .
  from first chain cut ret walk_requests(1) [of w v depth maxDepth s]
  show ?thesis by blast
qed

theorem unresolved_at_depth_bound_witness:
  "serializeVariable slowWorld (compositeVar ''x'' ''Map'' 5) 5 5 startState =
     (Inr (Str ''[unresolved: Map]''), startState\<lparr>tokenReads := 1\<rparr>) \<and>
   serializeVariable slowWorld
      \<lparr>v_name = ''x'', v_value = ''{...}'', v_type = None, variablesReference = 5\<rparr> 6 5 startState =
     (Inr (Str ''[unresolved: object]''), startState\<lparr>tokenReads := 1\<rparr>) \<and>
   (\<exists>r s'. serializeVariable (chainWorld 3) chainRoot 0 2 startState = (Inr r, s') \<and>
           sentinelDepths r = [2] \<and>
           effects s' = [CustomRequest (Variables 1), CustomRequest (Variables 2)]) \<and>
   fst (serializeVariable slowWorld (compositeVar ''order'' ''Object'' 3) 0 1 startState) =
     Inr (Obj [(''items'', Str ''[unresolved: Array]''), (''mixed'', Str ''[unresolved: Object]'')]) \<and>
   effects (snd (serializeVariable slowWorld (compositeVar ''order'' ''Object'' 3) 0 1 startState)) =
     [CustomRequest (Variables 3)] \<and>
   cutAtDepth slowWorld 1 0 (compositeVar ''order'' ''Object'' 3)
     (Obj [(''items'', Str ''[unresolved: Array]''), (''mixed'', Str ''[unresolved: Object]'')]) \<and>
   remoteAt slowWorld (compositeVar ''order'' ''Object'' 3) [Key ''items''] =
     Some (compositeVar ''items'' ''Array'' 1) \<and>
   remoteAt slowWorld (compositeVar ''order'' ''Object'' 3) [Key ''items'', Index 0] =
     Some (primitiveVar ''0'' ''10'' ''number'') \<and>
   remoteAt slowWorld (compositeVar ''order'' ''Object'' 3) [Key ''[[Prototype]]''] = None \<and>
   (\<exists>r s'. serializeVariable (chainWorld 3) (compositeVar ''order'' ''Object'' 3) 0 1 startState
             = (Inr r, s')) \<and>
   (\<exists>es. effects (snd (serializeVariable slowWorld (compositeVar ''order'' ''Object'' 3) 0 1 startState))
            = effects startState @ es \<and>
         list_all (requestAbove slowWorld 1 0 (compositeVar ''order'' ''Object'' 3)) es)"
proof -
  have c: "\<not> cancelled slowWorld (tokenReads startState)" "\<forall>k. \<not> cancelled (chainWorld 3) k"
          "\<forall>k. \<not> cancelled slowWorld k"
    by (simp_all add: slowWorld_def demoWorld_def chainWorld_def)
  have r: "variablesRequest (chainWorld 3) = chainVariables 3"
    by (simp add: chainWorld_def)
  have nr: "\<forall>ref e. variablesRequest (chainWorld 3) ref \<noteq> Rejected e"
    by (simp add: chainWorld_def chainVariables_def)
  have u: "[1..2] = [1, 2::int]" by (simp add: upto_rec1)
  have e1: "fst (serializeVariable slowWorld (compositeVar ''order'' ''Object'' 3) 0 1 startState) =
     Inr (Obj [(''items'', Str ''[unresolved: Array]''), (''mixed'', Str ''[unresolved: Object]'')])"
    by code_simp
  have e2: "effects (snd (serializeVariable slowWorld (compositeVar ''order'' ''Object'' 3) 0 1 startState)) =
     [CustomRequest (Variables 3)]"
    by code_simp
  have e3: "remoteAt slowWorld (compositeVar ''order'' ''Object'' 3) [Key ''items''] =
     Some (compositeVar ''items'' ''Array'' 1)"
    by code_simp
  have e4: "remoteAt slowWorld (compositeVar ''order'' ''Object'' 3) [Key ''items'', Index 0] =
     Some (primitiveVar ''0'' ''10'' ''number'')"
    by code_simp
  have e5: "remoteAt slowWorld (compositeVar ''order'' ''Object'' 3) [Key ''[[Prototype]]''] = None"
    by code_simp
  obtain s1 where run:
    "serializeVariable slowWorld (compositeVar ''order'' ''Object'' 3) 0 1 startState =
       (Inr (Obj [(''items'', Str ''[unresolved: Array]''), (''mixed'', Str ''[unresolved: Object]'')]), s1)"
    using e1 by (cases "serializeVariable slowWorld (compositeVar ''order'' ''Object'' 3) 0 1 startState") auto
  have part1: "serializeVariable slowWorld (compositeVar ''x'' ''Map'' 5) 5 5 startState =
     (Inr (Str ''[unresolved: Map]''), startState\<lparr>tokenReads := 1\<rparr>)"
    using unresolved_at_depth_bound
            [where v = "compositeVar ''x'' ''Map'' 5" and maxDepth = 5 and depth = 5 and w = slowWorld
               and s = startState and M = 2 and D = 3 and r = Null and s' = startState] c
    by (simp add: compositeVar_def startState_def)
  have part2: "serializeVariable slowWorld
      \<lparr>v_name = ''x'', v_value = ''{...}'', v_type = None, variablesReference = 5\<rparr> 6 5 startState =
     (Inr (Str ''[unresolved: object]''), startState\<lparr>tokenReads := 1\<rparr>)"
    using unresolved_at_depth_bound
            [where v = "\<lparr>v_name = ''x'', v_value = ''{...}'', v_type = None, variablesReference = 5\<rparr>"
               and maxDepth = 5 and depth = 6 and w = slowWorld and s = startState and M = 2 and D = 3
               and r = Null and s' = startState] c
    by (simp add: startState_def)
  have part3: "\<exists>r s'. serializeVariable (chainWorld 3) chainRoot 0 2 startState = (Inr r, s') \<and>
           sentinelDepths r = [2] \<and>
           effects s' = [CustomRequest (Variables 1), CustomRequest (Variables 2)]"
    using unresolved_at_depth_bound
            [where v = chainRoot and maxDepth = 0 and depth = 0 and w = "chainWorld 3"
               and s = startState and M = 2 and D = 3 and r = Null and s' = startState] c r
    by (simp add: startState_def u)
  have part4: "cutAtDepth slowWorld 1 0 (compositeVar ''order'' ''Object'' 3)
     (Obj [(''items'', Str ''[unresolved: Array]''), (''mixed'', Str ''[unresolved: Object]'')])"
    using unresolved_at_depth_bound
            [where v = "compositeVar ''order'' ''Object'' 3" and maxDepth = 1 and depth = 0
               and w = slowWorld and s = startState and M = 2 and D = 3
               and r = "Obj [(''items'', Str ''[unresolved: Array]''), (''mixed'', Str ''[unresolved: Object]'')]"
               and s' = s1] c run
    by simp
  have part5: "\<exists>r s'. serializeVariable (chainWorld 3) (compositeVar ''order'' ''Object'' 3) 0 1 startState
             = (Inr r, s')"
    using unresolved_at_depth_bound
            [where v = "compositeVar ''order'' ''Object'' 3" and maxDepth = 1 and depth = 0
               and w = "chainWorld 3" and s = startState and M = 2 and D = 3
               and r = Null and s' = startState] nr
    by blast
  have part6: "\<exists>es. effects (snd (serializeVariable slowWorld (compositeVar ''order'' ''Object'' 3) 0 1 startState))
            = effects startState @ es \<and>
         list_all (requestAbove slowWorld 1 0 (compositeVar ''order'' ''Object'' 3)) es"
    using unresolved_at_depth_bound
            [where v = "compositeVar ''order'' ''Object'' 3" and maxDepth = 1 and depth = 0
               and w = slowWorld and s = startState and M = 2 and D = 3
               and r = Null and s' = startState]
    by blast
  from part1 part2 part3 e1 e2 part4 e3 e4 e5 part5 part6 show ?thesis by blast
qed

text \<open>
  Claim C4: a composite node that is expanded (no cancellation, a non-zero handle, depth
  budget left, the \<open>variables\<close> request answered) and whose walk produces a value
  produces, when the fetched child list is not empty and every name in it is a
  non-empty run of digits, the sequence of the results of walking the children one
  level deeper, one per child and in the order of the response; and otherwise the
  object built from the entries (name, result) of the children whose name does not
  start with \<open>[[\<close>, in the order of the response, in which every name maps to the result
  of the last child of that name. The walk does produce a value when no \<open>variables\<close>
  request is rejected.
\<close>

theorem expand_children:
  assumes "\<not> cancelled w (tokenReads s)" and "variablesReference v \<noteq> 0" and "depth < maxDepth"
    and "variablesRequest w (variablesReference v) = Resolved response"
  shows
    "let children = (case response of None \<Rightarrow> [] | Some vs \<Rightarrow> vs);
         relevant = filter (\<lambda>c. \<not> startsWith (v_name c) ''[['') children;
         childResult = (\<lambda>c r. \<exists>si so. serializeVariable w c (depth + 1) maxDepth si = (Inr r, so))
     in (\<forall>r s'. serializeVariable w v depth maxDepth s = (Inr r, s') \<longrightarrow>
           (if children \<noteq> [] \<and> (\<forall>c \<in> set children. v_name c \<noteq> [] \<and> set (v_name c) \<subseteq> set ''0123456789'')
            then \<exists>rs. r = Arr rs \<and> list_all2 childResult children rs
            else \<exists>rs. r = Obj (fromEntries (zip (map v_name relevant) rs)) \<and>
                      list_all2 childResult relevant rs \<and>
                      (\<forall>k. map_of (fromEntries (zip (map v_name relevant) rs)) k =
                             map_of (rev (zip (map v_name relevant) rs)) k))) \<and>
        ((\<forall>ref e. variablesRequest w ref \<noteq> Rejected e) \<longrightarrow>
           (\<exists>r s'. serializeVariable w v depth maxDepth s = (Inr r, s')))"
proof -
  define children where "children = (case response of None \<Rightarrow> [] | Some vs \<Rightarrow> vs)"
  define relevant where "relevant = filter (\<lambda>c. \<not> startsWith (v_name c) ''[['') children"
  define s2 where "s2 = call (CustomRequest (Variables (variablesReference v)))
                          (s\<lparr>tokenReads := tokenReads s + 1\<rparr>)"
  define arrayLike where "arrayLike \<longleftrightarrow> children \<noteq> [] \<and> list_all (\<lambda>c. digitsPattern (v_name c)) children"
  have al: "arrayLike \<longleftrightarrow>
      children \<noteq> [] \<and> (\<forall>c \<in> set children. v_name c \<noteq> [] \<and> set (v_name c) \<subseteq> set ''0123456789'')"
    unfolding arrayLike_def list_all_iff digitsPattern_iff ..
  have eq: "serializeVariable w v depth maxDepth s =
     (if arrayLike then
        (case serializeEach w children (depth + 1) maxDepth
                (s2\<lparr>counter := addItems (floorPct w) (length children) (counter s2)\<rparr>) of
           (Inl e, s3) \<Rightarrow> (Inl e, s3)
         | (Inr results, s3) \<Rightarrow> (Inr (Arr results), s3))
      else
        (case serializeEach w relevant (depth + 1) maxDepth
                (s2\<lparr>counter := addItems (floorPct w) (length relevant) (counter s2)\<rparr>) of
           (Inl e, s3) \<Rightarrow> (Inl e, s3)
         | (Inr results, s3) \<Rightarrow>
             (Inr (Obj (fromEntries (zip (map v_name relevant) results))), s3)))"
    unfolding serializeVariable_expand [OF assms] arrayLike_def relevant_def children_def s2_def Let_def ..
  have seq: "\<exists>rs. r = Arr rs \<and>
        list_all2 (\<lambda>c r. \<exists>si so. serializeVariable w c (depth + 1) maxDepth si = (Inr r, so)) children rs"
    if "serializeVariable w v depth maxDepth s = (Inr r, s')" arrayLike for r s'
  proof -
    from that eq obtain rs where
      "serializeEach w children (depth + 1) maxDepth
         (s2\<lparr>counter := addItems (floorPct w) (length children) (counter s2)\<rparr>) = (Inr rs, s')"
      "r = Arr rs"
      by (auto split: prod.splits sum.splits)
    then show ?thesis using serializeEach_results by blast
  qed
  have obj: "\<exists>rs. r = Obj (fromEntries (zip (map v_name relevant) rs)) \<and>
        list_all2 (\<lambda>c r. \<exists>si so. serializeVariable w c (depth + 1) maxDepth si = (Inr r, so)) relevant rs"
    if "serializeVariable w v depth maxDepth s = (Inr r, s')" "\<not> arrayLike" for r s'
  proof -
    from that eq obtain rs where
      "serializeEach w relevant (depth + 1) maxDepth
         (s2\<lparr>counter := addItems (floorPct w) (length relevant) (counter s2)\<rparr>) = (Inr rs, s')"
      "r = Obj (fromEntries (zip (map v_name relevant) rs))"
      by (auto split: prod.splits sum.splits)
    then show ?thesis using serializeEach_results by blast
  qed
  have ret: "\<exists>r s'. serializeVariable w v depth maxDepth s = (Inr r, s')"
    if "\<forall>ref e. variablesRequest w ref \<noteq> Rejected e"
    using walk_returns(1) [OF that, of v depth maxDepth s]
    by (cases "serializeVariable w v depth maxDepth s") auto
  show ?thesis
    unfolding Let_def children_def [symmetric] relevant_def [symmetric] al [symmetric]
    using seq obj ret by (auto simp: fromEntries_lookup)
qed

theorem expand_children_witness:
  "\<not> cancelled slowWorld (tokenReads startState) \<and>
   variablesRequest slowWorld 1 =
     Resolved (Some [primitiveVar ''0'' ''10'' ''number'', primitiveVar ''1'' ''20'' ''number'',
                     primitiveVar ''2'' ''30'' ''number'']) \<and>
   fst (serializeVariable slowWorld (compositeVar ''items'' ''Array'' 1) 0 5 startState) =
     Inr (Arr [Num 10, Num 20, Num 30]) \<and>
   variablesRequest slowWorld 2 =
     Resolved (Some [primitiveVar ''0'' ''1'' ''number'', primitiveVar ''foo'' ''true'' ''boolean'']) \<and>
   fst (serializeVariable slowWorld (compositeVar ''mixed'' ''Object'' 2) 0 5 startState) =
     Inr (Obj [(''0'', Num 1), (''foo'', Bool True)]) \<and>
   fst (serializeVariable slowWorld (compositeVar ''twice'' ''Object'' 5) 0 5 startState) =
     Inr (Obj [(''a'', Num 2)]) \<and>
   (\<exists>rs. Arr [Num 10, Num 20, Num 30] = Arr rs \<and>
      list_all2 (\<lambda>c r. \<exists>si so. serializeVariable slowWorld c (0 + 1) 5 si = (Inr r, so))
        [primitiveVar ''0'' ''10'' ''number'', primitiveVar ''1'' ''20'' ''number'',
         primitiveVar ''2'' ''30'' ''number''] rs)"
proof -
  have nc: "\<not> cancelled slowWorld (tokenReads startState)"
    by (simp add: slowWorld_def demoWorld_def)
  have r1: "variablesRequest slowWorld (variablesReference (compositeVar ''items'' ''Array'' 1)) =
     Resolved (Some [primitiveVar ''0'' ''10'' ''number'', primitiveVar ''1'' ''20'' ''number'',
                     primitiveVar ''2'' ''30'' ''number''])"
    by (simp add: slowWorld_def demoWorld_def demoVariables_def compositeVar_def)
  have r2: "variablesRequest slowWorld 2 =
     Resolved (Some [primitiveVar ''0'' ''1'' ''number'', primitiveVar ''foo'' ''true'' ''boolean''])"
    by (simp add: slowWorld_def demoWorld_def demoVariables_def)
  have ref: "variablesReference (compositeVar ''items'' ''Array'' 1) \<noteq> 0"
    by (simp add: compositeVar_def)
  have e1: "fst (serializeVariable slowWorld (compositeVar ''items'' ''Array'' 1) 0 5 startState) =
     Inr (Arr [Num 10, Num 20, Num 30])"
    by code_simp
  have e2: "fst (serializeVariable slowWorld (compositeVar ''mixed'' ''Object'' 2) 0 5 startState) =
     Inr (Obj [(''0'', Num 1), (''foo'', Bool True)])"
    by code_simp
  have e3: "fst (serializeVariable slowWorld (compositeVar ''twice'' ''Object'' 5) 0 5 startState) =
     Inr (Obj [(''a'', Num 2)])"
    by code_simp
  have digits: "\<forall>c \<in> set [primitiveVar ''0'' ''10'' ''number'', primitiveVar ''1'' ''20'' ''number'',
                     primitiveVar ''2'' ''30'' ''number'']. v_name c \<noteq> [] \<and> set (v_name c) \<subseteq> set ''0123456789''"
    by (simp add: primitiveVar_def)
  obtain s' where run: "serializeVariable slowWorld (compositeVar ''items'' ''Array'' 1) 0 5 startState =
     (Inr (Arr [Num 10, Num 20, Num 30]), s')"
    using e1 by (cases "serializeVariable slowWorld (compositeVar ''items'' ''Array'' 1) 0 5 startState") auto
  from expand_children [OF nc ref _ r1, of 0 5] run digits
  have "\<exists>rs. Arr [Num 10, Num 20, Num 30] = Arr rs \<and>
      list_all2 (\<lambda>c r. \<exists>si so. serializeVariable slowWorld c (0 + 1) 5 si = (Inr r, so))
        [primitiveVar ''0'' ''10'' ''number'', primitiveVar ''1'' ''20'' ''number'',
         primitiveVar ''2'' ''30'' ''number''] rs"
    unfolding Let_def by (simp del: list_all2_Cons1 list_all2_Cons2 list_all2_Cons)
  with nc r1 r2 e1 e2 e3 show ?thesis by (simp add: compositeVar_def)
qed

section \<open>Properties of the fast-path serializer\<close>

lemma map_of_removed: "map_of (filter (\<lambda>(p, t). p \<noteq> path) fs) path = None"
  by (induction fs) auto

lemma fastSerializeTry_files:
  "files (snd (fastSerializeTry w tmpFile script frameId s)) = debuggeeFiles w script frameId (files s)"
  by (auto simp: fastSerializeTry_def readFileSync_def Let_def
           split: reply.splits option.splits prod.splits sum.splits)



lemma fastSerializeTry_result:
  "fst (fastSerializeTry w tmpFile script frameId s) =
     (case evaluateRepl w script frameId of
        Rejected e \<Rightarrow> Inl ()
      | Resolved None \<Rightarrow> Inr None
      | Resolved (Some t) \<Rightarrow>
          if includesText t ''ok'' then
            (case map_of (debuggeeFiles w script frameId (files s)) tmpFile of
               None \<Rightarrow> Inl ()
             | Some json \<Rightarrow> (case JSON_parse w json of None \<Rightarrow> Inl () | Some v \<Rightarrow> Inr (Some v)))
          else Inr None)"
  by (auto simp: fastSerializeTry_def readFileSync_def Let_def
           split: reply.splits option.splits prod.splits sum.splits)

lemma fastSerialize_unfold:
  "fastSerialize w expression frameId s =
     (case fst (fastSerializeTry w (tmpFileName w)
                  (serializeScript (JSON_quote w (tmpFileName w)) expression) frameId s) of
        Inr (Some v) \<Rightarrow> v
      | Inr None \<Rightarrow> Undefined
      | Inl thrown \<Rightarrow> Undefined,
      snd (unlinkSync w (tmpFileName w)
             (snd (fastSerializeTry w (tmpFileName w)
                     (serializeScript (JSON_quote w (tmpFileName w)) expression) frameId s))))"
  by (simp add: fastSerialize_def Let_def split: prod.splits sum.splits option.splits)

lemma unlinkSync_state:
  "effects (snd (unlinkSync w path s)) = effects s @ [UnlinkSync path]"
  "tokenReads (snd (unlinkSync w path s)) = tokenReads s"
  "\<not> unlinkDenied w \<Longrightarrow> map_of (files (snd (unlinkSync w path s))) path = None"
  "unlinkDenied w \<Longrightarrow> files (snd (unlinkSync w path s)) = files s"
  by (auto simp: unlinkSync_def Let_def map_of_removed)


text \<open>
  Claim C6: the fast-path serializer is a total function to a value, it has no
  exceptional result. When the evaluation is rejected, when the response carries no
  result or one without \<open>ok\<close>, when the artifact is missing after the evaluation, or when
  its content does not parse, the result is \<open>undefined\<close> (and otherwise it is the parsed
  content). Whatever happened, the last thing the serializer does is to try to remove
  the artifact: after it the file does not exist unless the removal was denied, and a
  failed removal changes nothing else.
\<close>

theorem fast_path_never_raises:
  "let tmpFile = tmpFileName w;
       script = serializeScript (JSON_quote w tmpFile) expression;
       fs = debuggeeFiles w script frameId (files s);
       (r, s') = fastSerialize w expression frameId s
   in ((\<exists>e. evaluateRepl w script frameId = Rejected e) \<or>
       evaluateRepl w script frameId = Resolved None \<or>
       (\<exists>t. evaluateRepl w script frameId = Resolved (Some t) \<and> \<not> includesText t ''ok'') \<or>
       map_of fs tmpFile = None \<or>
       (\<exists>json. map_of fs tmpFile = Some json \<and> JSON_parse w json = None)
       \<longrightarrow> r = Undefined) \<and>
      (\<forall>t json v. evaluateRepl w script frameId = Resolved (Some t) \<and> includesText t ''ok'' \<and>
                  map_of fs tmpFile = Some json \<and> JSON_parse w json = Some v \<longrightarrow> r = v) \<and>
      effects s' \<noteq> [] \<and> last (effects s') = UnlinkSync tmpFile \<and>
      (\<not> unlinkDenied w \<longrightarrow> map_of (files s') tmpFile = None) \<and>
      (unlinkDenied w \<longrightarrow> files s' = fs)"
  unfolding Let_def fastSerialize_unfold prod.case
  by (auto simp: unlinkSync_state fastSerializeTry_result fastSerializeTry_files
           split: reply.splits option.splits)

theorem fast_path_never_raises_witness:
  "fastSerialize slowWorld ''order.items'' 7 startState =
     (Undefined,
      startState\<lparr>effects :=
        [CustomRequest (Evaluate (serializeScript (JSON_quote slowWorld demoTmpFile) ''order.items'') 7 ''repl''),
         UnlinkSync demoTmpFile]\<rparr>) \<and>
   fst (fastSerialize brokenArtifactWorld ''order.items'' 7 startState) = Undefined \<and>
   map_of (files (snd (fastSerialize brokenArtifactWorld ''order.items'' 7 startState))) demoTmpFile = None \<and>
   last (effects (snd (fastSerialize brokenArtifactWorld ''order.items'' 7 startState))) = UnlinkSync demoTmpFile \<and>
   fst (fastSerialize demoWorld ''order.items'' 7 startState) = Num 42 \<and>
   map_of (files (snd (fastSerialize demoWorld ''order.items'' 7 startState))) demoTmpFile = None"
proof -
  have tmp: "tmpFileName slowWorld = demoTmpFile" "tmpFileName brokenArtifactWorld = demoTmpFile"
            "tmpFileName demoWorld = demoTmpFile"
    by code_simp+
  have rej: "evaluateRepl slowWorld (serializeScript (JSON_quote slowWorld demoTmpFile) ''order.items'') 7
               = Rejected (Some ''require is not defined'')"
    by (simp add: slowWorld_def)
  have ok: "evaluateRepl brokenArtifactWorld
              (serializeScript (JSON_quote brokenArtifactWorld demoTmpFile) ''order.items'') 7
               = Resolved (Some [CHR 0x27, CHR ''o'', CHR ''k'', CHR 0x27])"
       "evaluateRepl demoWorld (serializeScript (JSON_quote demoWorld demoTmpFile) ''order.items'') 7
               = Resolved (Some [CHR 0x27, CHR ''o'', CHR ''k'', CHR 0x27])"
       "includesText [CHR 0x27, CHR ''o'', CHR ''k'', CHR 0x27] ''ok''"
    by (simp_all add: brokenArtifactWorld_def demoWorld_def startsWith_def)
  have art: "map_of (debuggeeFiles brokenArtifactWorld
                (serializeScript (JSON_quote brokenArtifactWorld demoTmpFile) ''order.items'') 7
                (files startState)) demoTmpFile = Some ''{''"
       "JSON_parse brokenArtifactWorld ''{'' = None"
       "map_of (debuggeeFiles demoWorld
                (serializeScript (JSON_quote demoWorld demoTmpFile) ''order.items'') 7
                (files startState)) demoTmpFile = Some ''42''"
       "JSON_parse demoWorld ''42'' = Some (Num 42)"
    by (simp_all add: brokenArtifactWorld_def demoWorld_def demoParse_def)
  have den: "\<not> unlinkDenied slowWorld" "\<not> unlinkDenied brokenArtifactWorld" "\<not> unlinkDenied demoWorld"
    by (simp_all add: slowWorld_def brokenArtifactWorld_def demoWorld_def)
  have run: "fastSerialize slowWorld ''order.items'' 7 startState =
     (Undefined,
      startState\<lparr>effects :=
        [CustomRequest (Evaluate (serializeScript (JSON_quote slowWorld demoTmpFile) ''order.items'') 7 ''repl''),
         UnlinkSync demoTmpFile]\<rparr>)"
    unfolding fastSerialize_def Let_def tmp fastSerializeTry_def rej
    by (simp add: unlinkSync_def call_def startState_def slowWorld_def Let_def)
  from fast_path_never_raises [of slowWorld "''order.items''" 7 startState]
       fast_path_never_raises [of brokenArtifactWorld "''order.items''" 7 startState]
       fast_path_never_raises [of demoWorld "''order.items''" 7 startState]
       rej ok art den run
  show ?thesis unfolding Let_def tmp by (auto split: prod.splits)
qed

section \<open>Properties of the capture orchestrator\<close>






lemma captureFrame_unfold:
  assumes "fastSerialize w expression (f_id topFrame) (progressReport ''Serializing (fast path)...'' s)
             = (serialized, s1)"
  shows "captureFrame w workspaceRoot expression maxDepth topFrame s =
     (if serialized = Undefined then
        (case evaluateHover w expression (f_id topFrame) of
           None \<Rightarrow>
             (Inr None,
              call (ShowErrorMessage (timeoutMessage ''evaluate''))
                (call (CustomRequest (Evaluate expression (f_id topFrame) ''hover''))
                   (progressReport ''Fast path unavailable - using DAP fallback...'' s1)))
         | Some (Rejected m) \<Rightarrow>
             (Inr None,
              call (ShowErrorMessage
                      (case m of
                         None \<Rightarrow> couldNotEvaluateMessage expression
                       | Some t \<Rightarrow> if startsWith t ''Data Snapshot:'' then t
                                   else couldNotEvaluateMessage expression))
                (call (CustomRequest (Evaluate expression (f_id topFrame) ''hover''))
                   (progressReport ''Fast path unavailable - using DAP fallback...'' s1)))
         | Some (Resolved None) \<Rightarrow>
             (Inl TypeError,
              call (CustomRequest (Evaluate expression (f_id topFrame) ''hover''))
                (progressReport ''Fast path unavailable - using DAP fallback...'' s1))
         | Some (Resolved (Some evalResp)) \<Rightarrow>
             (case serializeVariable w
                     \<lparr>v_name = expression, v_value = r_result evalResp, v_type = r_type evalResp,
                      variablesReference = r_variablesReference evalResp\<rparr> 0 maxDepth
                     (call (CustomRequest (Evaluate expression (f_id topFrame) ''hover''))
                        (progressReport ''Fast path unavailable - using DAP fallback...'' s1)) of
                (Inl e, s3) \<Rightarrow> (Inl e, s3)
              | (Inr v, s3) \<Rightarrow> afterSerialize w workspaceRoot expression topFrame v s3))
      else afterSerialize w workspaceRoot expression topFrame serialized s1)"
  unfolding captureFrame_def assms Let_def prod.case ..


lemma captureInProgress_cases:
  "(\<exists>(thread0 :: DapThread) topFrame.
      captureInProgress w workspaceRoot expression s =
        captureFrame w workspaceRoot expression (case configMaxDepth w of None \<Rightarrow> 5 | Some d \<Rightarrow> d)
          topFrame
          (call (CustomRequest (StackTrace (t_id thread0)))
             (call (CustomRequest Threads)
                (progressReport ''Evaluating expression...'' (s\<lparr>counter := newCounter []\<rparr>))))) \<or>
   (\<exists>s3. tokenReads s3 = tokenReads s \<and>
      filter isFileWrite (effects s3) = filter isFileWrite (effects s) \<and>
      captureInProgress w workspaceRoot expression s = (Inr None, s3))"
proof (cases "threadsRequest w")
  case None
  then show ?thesis by (simp add: captureInProgress_def Let_def)
next
  case (Some answer)
  show ?thesis
  proof (cases answer)
    case (Rejected m)
    then show ?thesis using Some by (simp add: captureInProgress_def Let_def)
  next
    case (Resolved threadsResp)
    show ?thesis
    proof (cases "case threadsResp of None \<Rightarrow> [] | Some ts \<Rightarrow> ts")
      case Nil
      then show ?thesis using Some Resolved by (simp add: captureInProgress_def Let_def)
    next
      case (Cons thread0 others)
      show ?thesis
      proof (cases "stackTraceRequest w (t_id thread0)")
        case None
        then show ?thesis using Some Resolved Cons by (simp add: captureInProgress_def Let_def)
      next
        case st: (Some stackAnswer)
        show ?thesis
        proof (cases stackAnswer)
          case (Rejected m)
          then show ?thesis using Some Resolved Cons st by (simp add: captureInProgress_def Let_def)
        next
          case sr: (Resolved stackResp)
          show ?thesis
          proof (cases "case stackResp of None \<Rightarrow> [] | Some fs \<Rightarrow> fs")
            case Nil
            then show ?thesis using Some Resolved Cons st sr
              by (simp add: captureInProgress_def Let_def)
          next
            case fr: (Cons topFrame below)
            have "captureInProgress w workspaceRoot expression s =
                captureFrame w workspaceRoot expression (case configMaxDepth w of None \<Rightarrow> 5 | Some d \<Rightarrow> d)
                  topFrame
                  (call (CustomRequest (StackTrace (t_id thread0)))
                     (call (CustomRequest Threads)
                        (progressReport ''Evaluating expression...'' (s\<lparr>counter := newCounter []\<rparr>))))"
              using Some Resolved Cons st sr fr by (simp add: captureInProgress_def Let_def)
            then show ?thesis by blast
          qed
        qed
      qed
    qed
  qed
qed


lemma captureVariable_cases:
  "(\<exists>selected. activeDebugSession w \<and> selectedText w = Some selected \<and> trim selected \<noteq> [] \<and>
      \<not> startsWith (trim selected) ''['' \<and> \<not> startsWith (trim selected) ''{'' \<and>
      \<not> includesText (trim selected) [CHR 0x0A] \<and>
      captureVariable w workspaceRoot s = captureInProgress w workspaceRoot (trim selected) s) \<or>
   (\<exists>msg. captureVariable w workspaceRoot s = (Inr None, call (ShowErrorMessage msg) s))"
  by (auto simp: captureVariable_def split: option.splits)




lemma includesText_char: "includesText t [c] \<longleftrightarrow> c \<in> set t"
  by (induction t) (auto simp: startsWith_char)

text \<open>
  Claim C8: when the selected text, trimmed as the orchestrator trims it, is empty
  (or there is no editor), starts with \<open>[\<close> or \<open>{\<close>, or contains a line feed, the capture
  returns nothing and all it has done is to show one error message: no debug-protocol
  call is issued. With an active debug session the message is the request to select an
  expression when the text is empty, and the "is not a valid expression" message
  otherwise.
\<close>

theorem invalid_selection_rejected:
  "let expression = (case selectedText w of None \<Rightarrow> [] | Some selected \<Rightarrow> trim selected)
   in expression = [] \<or> hd expression = CHR ''['' \<or> hd expression = CHR ''{'' \<or>
      CHR 0x0A \<in> set expression \<longrightarrow>
      (\<exists>msg. captureVariable w workspaceRoot s = (Inr None, call (ShowErrorMessage msg) s) \<and>
             (activeDebugSession w \<longrightarrow>
                msg = (if expression = []
                       then ''Data Snapshot: Select a variable or expression in the editor first.''
                       else notValidMessage expression)))"
  by (auto simp: captureVariable_def Let_def startsWith_char includesText_char split: option.splits)

theorem invalid_selection_rejected_witness:
  "trim '' [1, 2]'' = ''[1, 2]'' \<and> hd ''[1, 2]'' = CHR ''['' \<and>
   captureVariable literalWorld ''/ws'' startState =
     (Inr None, startState\<lparr>effects := [ShowErrorMessage (notValidMessage ''[1, 2]'')]\<rparr>) \<and>
   trim [CHR '' '', CHR 0x0A] = [] \<and>
   captureVariable emptyWorld ''/ws'' startState =
     (Inr None,
      startState\<lparr>effects :=
        [ShowErrorMessage ''Data Snapshot: Select a variable or expression in the editor first.'']\<rparr>) \<and>
   CHR 0x0A \<in> set (trim (''order'' @ [CHR 0x0A] @ ''.items'')) \<and>
   captureVariable twoLineWorld ''/ws'' startState =
     (Inr None,
      startState\<lparr>effects := [ShowErrorMessage (notValidMessage (''order'' @ [CHR 0x0A] @ ''.items''))]\<rparr>)"
proof -
  have t: "trim '' [1, 2]'' = ''[1, 2]''" "trim [CHR '' '', CHR 0x0A] = []"
          "trim (''order'' @ [CHR 0x0A] @ ''.items'') = ''order'' @ [CHR 0x0A] @ ''.items''"
    by (simp_all add: trim_def isWhiteSpace_def)
  have w: "selectedText literalWorld = Some '' [1, 2]''" "activeDebugSession literalWorld"
          "selectedText emptyWorld = Some [CHR '' '', CHR 0x0A]" "activeDebugSession emptyWorld"
          "selectedText twoLineWorld = Some (''order'' @ [CHR 0x0A] @ ''.items'')"
          "activeDebugSession twoLineWorld"
    by (simp_all add: literalWorld_def emptyWorld_def twoLineWorld_def demoWorld_def)
  from invalid_selection_rejected [of literalWorld "''/ws''" startState]
       invalid_selection_rejected [of emptyWorld "''/ws''" startState]
       invalid_selection_rejected [of twoLineWorld "''/ws''" startState]
       w t
  show ?thesis
    by (auto simp: Let_def call_def startState_def)
qed

lemma writeSnapshot_named:
  "namedAfter w workspaceRoot expression (writeSnapshot w workspaceRoot expression topFrame v s)"
  by (simp add: namedAfter_def writeSnapshot_def safeNameOf_def Let_def)

lemma afterSerialize_named:
  "namedAfter w workspaceRoot expression (afterSerialize w workspaceRoot expression topFrame v s)"
  using writeSnapshot_named [of w workspaceRoot expression topFrame v]
  by (simp add: afterSerialize_def Let_def) (simp add: namedAfter_def)

lemma none_named: "namedAfter w workspaceRoot expression (Inr None, s)"
  and error_named: "namedAfter w workspaceRoot expression (Inl e, s)"
  by (simp_all add: namedAfter_def)

lemma captureFrame_named:
  "namedAfter w workspaceRoot expression (captureFrame w workspaceRoot expression maxDepth topFrame s)"
proof -
  obtain serialized s1 where
    fast: "fastSerialize w expression (f_id topFrame) (progressReport ''Serializing (fast path)...'' s)
             = (serialized, s1)"
    by (cases "fastSerialize w expression (f_id topFrame) (progressReport ''Serializing (fast path)...'' s)")
  show ?thesis
    unfolding captureFrame_unfold [OF fast]
    by (auto simp: afterSerialize_named none_named error_named
             split: option.splits reply.splits prod.splits sum.splits)
qed

lemma captureInProgress_named:
  "namedAfter w workspaceRoot expression (captureInProgress w workspaceRoot expression s)"
  using captureInProgress_cases [of w workspaceRoot expression s]
  by (auto simp: captureFrame_named none_named)

lemma sanitizeName_map:
  "sanitizeName nm = take 64 (map (\<lambda>c. if isNameChar c then c else CHR ''_'') nm)"
  by (simp add: sanitizeName_def slice_def Let_def min_def)

lemma underscore_isNameChar: "isNameChar (CHR ''_'')"
  by (simp add: isNameChar_def)

text \<open>
  Claim C9, as stated: the components of the file name are sanitized by stripping every
  character that is not alphanumeric, underscore or hyphen. The code replaces each such
  character by an underscore instead: \<open>order.items\<close> becomes \<open>order_items\<close>, where
  stripping gives \<open>orderitems\<close>. And the time stamp is not sanitized in that way at all:
  its colons and its dot become hyphens.
\<close>

theorem sanitize_strips_counterexample:
  "sanitizeName ''order.items'' = ''order_items'' \<and>
   sanitizeNameStripping ''order.items'' = ''orderitems'' \<and>
   sanitizeName ''order.items'' \<noteq> sanitizeNameStripping ''order.items'' \<and>
   timestampOf ''2026-11-02T04:12:00.000Z'' = ''2026-11-02T04-12-00-000Z'' \<and>
   sanitizeNameStripping ''2026-11-02T04:12:00.000Z'' = ''2026-11-02T041200000Z''"
  by code_simp

text \<open>
  Claim C9, amended: the path of the snapshot a capture returns is, under the snapshots
  directory, \<open><function name>_<expression>_<time stamp>.json\<close>, where the function name
  and the (trimmed) expression text are sanitized by replacing every character that is
  not alphanumeric, underscore or hyphen by an underscore and keeping the first 64
  characters at most, and the time stamp is the ISO time of the capture with every
  colon and dot replaced by a hyphen, at its full length.
\<close>

theorem snapshot_file_name:
  "(\<forall>path snapshot s'.
      captureVariable w workspaceRoot s = (Inr (Some (path, snapshot)), s') \<longrightarrow>
      (\<exists>selected v.
         selectedText w = Some selected \<and> snap_variables snapshot = [(trim selected, v)] \<and>
         path = pathJoin w [pathJoin w [workspaceRoot, ''.snapshots'', ''snapshots''],
                  sanitizeName (src_functionName (snap_source snapshot)) @ ''_'' @
                  sanitizeName (trim selected) @ ''_'' @
                  timestampOf (snap_capturedAt snapshot) @ ''.json''])) \<and>
   length (sanitizeName nm) = min 64 (length nm) \<and>
   (\<forall>i < length (sanitizeName nm).
      sanitizeName nm ! i = (if isNameChar (nm ! i) then nm ! i else CHR ''_'')) \<and>
   (\<forall>c \<in> set (sanitizeName nm). isNameChar c) \<and>
   length (timestampOf isoText) = length isoText \<and>
   (\<forall>i < length isoText.
      timestampOf isoText ! i =
        (if isoText ! i = CHR '':'' \<or> isoText ! i = CHR ''.'' then CHR ''-'' else isoText ! i))"
proof -
  have path: "\<exists>selected v.
         selectedText w = Some selected \<and> snap_variables snapshot = [(trim selected, v)] \<and>
         path = pathJoin w [pathJoin w [workspaceRoot, ''.snapshots'', ''snapshots''],
                  sanitizeName (src_functionName (snap_source snapshot)) @ ''_'' @
                  sanitizeName (trim selected) @ ''_'' @
                  timestampOf (snap_capturedAt snapshot) @ ''.json'']"
    if run: "captureVariable w workspaceRoot s = (Inr (Some (path, snapshot)), s')" for path snapshot s'
  proof -
    from captureVariable_cases [of w workspaceRoot s] run obtain selected where
      sel: "selectedText w = Some selected" and
      eq: "captureVariable w workspaceRoot s = captureInProgress w workspaceRoot (trim selected) s"
      by auto
    from captureInProgress_named [of w workspaceRoot "trim selected" s] run
    show ?thesis unfolding eq [symmetric] namedAfter_def using sel by auto
  qed
  have chars: "\<forall>c \<in> set (sanitizeName nm). isNameChar c"
  proof
    fix c assume "c \<in> set (sanitizeName nm)"
    then have "c \<in> set (map (\<lambda>c. if isNameChar c then c else CHR ''_'') nm)"
      unfolding sanitizeName_map by (rule in_set_takeD)
    then show "isNameChar c" using underscore_isNameChar by auto
  qed
  have len: "length (sanitizeName nm) = min 64 (length nm)"
    by (simp add: sanitizeName_map)
  have nth: "\<forall>i < length (sanitizeName nm).
      sanitizeName nm ! i = (if isNameChar (nm ! i) then nm ! i else CHR ''_'')"
    by (simp add: sanitizeName_map)
  have ts: "length (timestampOf isoText) = length isoText"
    "\<forall>i < length isoText.
      timestampOf isoText ! i =
        (if isoText ! i = CHR '':'' \<or> isoText ! i = CHR ''.'' then CHR ''-'' else isoText ! i)"
    by (simp_all add: timestampOf_def)
  show ?thesis using path chars len nth ts by blast
qed

theorem snapshot_file_name_witness:
  "fst (captureVariable demoWorld ''/ws'' startState) =
     Inr (Some (''/ws/.snapshots/snapshots/loadOrder_order_items_2026-11-02T04-12-00-000Z.json'',
                \<lparr>snap_version = 1, snap_capturedAt = ''2026-11-02T04:12:00.000Z'',
                 snap_source = \<lparr>src_file = ''/app/src/orders.ts'', src_line = 12,
                                 src_functionName = ''loadOrder''\<rparr>,
                 snap_frame = \<lparr>fr_name = Some ''loadOrder'', fr_id = 7\<rparr>,
                 snap_variables = [(''order.items'', Num 42)]\<rparr>)) \<and>
   selectedText demoWorld = Some ''  order.items '' \<and>
   trim ''  order.items '' = ''order.items'' \<and>
   sanitizeName ''loadOrder'' = ''loadOrder'' \<and>
   sanitizeName ''order.items'' = ''order_items'' \<and>
   timestampOf ''2026-11-02T04:12:00.000Z'' = ''2026-11-02T04-12-00-000Z'' \<and>
   ''/ws/.snapshots/snapshots/loadOrder_order_items_2026-11-02T04-12-00-000Z.json'' =
     pathJoin demoWorld [pathJoin demoWorld [''/ws'', ''.snapshots'', ''snapshots''],
        sanitizeName ''loadOrder'' @ ''_'' @ sanitizeName (trim ''  order.items '') @ ''_'' @
        timestampOf ''2026-11-02T04:12:00.000Z'' @ ''.json'']"
proof -
  have run: "fst (captureVariable demoWorld ''/ws'' startState) =
     Inr (Some (''/ws/.snapshots/snapshots/loadOrder_order_items_2026-11-02T04-12-00-000Z.json'',
                \<lparr>snap_version = 1, snap_capturedAt = ''2026-11-02T04:12:00.000Z'',
                 snap_source = \<lparr>src_file = ''/app/src/orders.ts'', src_line = 12,
                                 src_functionName = ''loadOrder''\<rparr>,
                 snap_frame = \<lparr>fr_name = Some ''loadOrder'', fr_id = 7\<rparr>,
                 snap_variables = [(''order.items'', Num 42)]\<rparr>))"
    by code_simp
  have sel: "selectedText demoWorld = Some ''  order.items ''"
    by (simp add: demoWorld_def)
  have ev: "trim ''  order.items '' = ''order.items''" "sanitizeName ''loadOrder'' = ''loadOrder''"
    "sanitizeName ''order.items'' = ''order_items''"
    "timestampOf ''2026-11-02T04:12:00.000Z'' = ''2026-11-02T04-12-00-000Z''"
    by code_simp+
  obtain s' where full: "captureVariable demoWorld ''/ws'' startState =
     (Inr (Some (''/ws/.snapshots/snapshots/loadOrder_order_items_2026-11-02T04-12-00-000Z.json'',
                \<lparr>snap_version = 1, snap_capturedAt = ''2026-11-02T04:12:00.000Z'',
                 snap_source = \<lparr>src_file = ''/app/src/orders.ts'', src_line = 12,
                                 src_functionName = ''loadOrder''\<rparr>,
                 snap_frame = \<lparr>fr_name = Some ''loadOrder'', fr_id = 7\<rparr>,
                 snap_variables = [(''order.items'', Num 42)]\<rparr>)), s')"
    using run by (cases "captureVariable demoWorld ''/ws'' startState") auto
  from snapshot_file_name [of demoWorld "''/ws''" startState "''loadOrder''" "''2026-11-02T04:12:00.000Z''"]
       full sel
  have "''/ws/.snapshots/snapshots/loadOrder_order_items_2026-11-02T04-12-00-000Z.json'' =
     pathJoin demoWorld [pathJoin demoWorld [''/ws'', ''.snapshots'', ''snapshots''],
        sanitizeName ''loadOrder'' @ ''_'' @ sanitizeName (trim ''  order.items '') @ ''_'' @
        timestampOf ''2026-11-02T04:12:00.000Z'' @ ''.json'']"
    by auto
  with run sel ev show ?thesis by simp
qed
end
